theory Spec2Isabelle
  imports Main "HOL-Library.Word"
begin

section \<open>Startup-dependency scheduler: task_runner.cpp\<close>

text \<open>
  A shallow embedding of \<^verbatim>\<open>proton::initializer::TaskRunner\<close>
  (\<^verbatim>\<open>searchcore/src/vespa/searchcore/proton/initializer/task_runner.cpp\<close>).

  \<^item> A task object is identified by its address; the type variable \<open>'a\<close> is the type of the
    live task objects, which is finite, and the heap maps every address to its object.
  \<^item> An executor is identified by a natural number.  A unit of work handed to an executor
    stays in \<open>pending\<close>, tagged with that executor, until it runs.  Executors promise no order
    between units, so any pending unit may run next.  A unit runs atomically with respect to
    the scheduler's state: units on the context executor never overlap, and a unit on the
    worker executor touches that state only by submitting the completion unit.
  \<^item> The body \<^verbatim>\<open>task->run()\<close> is opaque; running it is recorded in \<open>runLog\<close>.  Invoking the
    completion callback is recorded in \<open>doneCalls\<close>.
  \<^item> A failed \<^verbatim>\<open>assert\<close> is the error value \<open>AssertionFailed\<close>.
  \<^item> A world holds one Context, that is one scheduling invocation.  The blocking entry point
    \<^verbatim>\<open>runTask(task)\<close> (lines 89-98) waits on a future for the callback of the asynchronous one
    and is not modelled.
\<close>

subsection \<open>Tasks\<close>

text \<open>
  Modelled from the spec: the class \<^verbatim>\<open>InitializerTask\<close> is declared in a header that is not
  part of the sources.  A task has a state, one of \<open>BLOCKED\<close>, \<open>RUNNING\<close>, \<open>DONE\<close>, and a
  fixed, ordered list of dependencies.
\<close>

datatype State = BLOCKED | RUNNING | DONE

record 'a InitializerTask =
  state :: State
  dependencies :: "'a list"

type_synonym 'a heap = "'a \<Rightarrow> 'a InitializerTask"

text \<open>
  Modelled from the spec: the accessors \<^verbatim>\<open>getState()\<close> and \<^verbatim>\<open>getDependencies()\<close> of
  \<^verbatim>\<open>InitializerTask\<close>.
\<close>

definition getState :: "'a heap \<Rightarrow> 'a \<Rightarrow> State" where
  "getState h task = state (h task)"

definition getDependencies :: "'a heap \<Rightarrow> 'a \<Rightarrow> 'a list" where
  "getDependencies h task = dependencies (h task)"

text \<open>
  Modelled from the spec: \<^verbatim>\<open>InitializerTask::setRunning()\<close> and \<^verbatim>\<open>InitializerTask::setDone()\<close>
  store the new state and leave the dependencies as they are.
\<close>

definition setRunning :: "'a \<Rightarrow> 'a heap \<Rightarrow> 'a heap" where
  "setRunning task h = h(task := (h task)\<lparr>state := RUNNING\<rparr>)"

definition setDone :: "'a \<Rightarrow> 'a heap \<Rightarrow> 'a heap" where
  "setDone task h = h(task := (h task)\<lparr>state := DONE\<rparr>)"

subsection \<open>Readiness traversal\<close>

text \<open>
  \<^verbatim>\<open>TaskRunner::getReadyTasks\<close> (lines 23-49).  The ready list and the visited set, which the
  source passes by reference, are threaded through as a pair.  \<open>forDeps\<close> is the \<^verbatim>\<open>for\<close> loop
  over the dependencies (lines 34-45); its first component is the local \<^verbatim>\<open>ready\<close>.  The
  \<^verbatim>\<open>break\<close> of the \<open>RUNNING\<close> case leaves the \<^verbatim>\<open>switch\<close>, not the loop.
\<close>

function getReadyTasks :: "('a::finite) heap \<Rightarrow> 'a \<Rightarrow> 'a list \<times> 'a set \<Rightarrow> 'a list \<times> 'a set"
  and forDeps :: "('a::finite) heap \<Rightarrow> 'a list \<Rightarrow> bool \<times> 'a list \<times> 'a set \<Rightarrow> bool \<times> 'a list \<times> 'a set"
where
  "getReadyTasks h task (readyTasks, checked) =
     (if getState h task \<noteq> BLOCKED then (readyTasks, checked)
      else if task \<in> checked then (readyTasks, checked)
      else (case forDeps h (getDependencies h task) (True, readyTasks, insert task checked) of
              (ready, readyTasks', checked') \<Rightarrow>
                if ready then (readyTasks' @ [task], checked') else (readyTasks', checked')))"
| "forDeps h [] acc = acc"
| "forDeps h (dep # deps) (ready, readyTasks, checked) =
     (case getState h dep of
        RUNNING \<Rightarrow> forDeps h deps (False, readyTasks, checked)
      | DONE \<Rightarrow> forDeps h deps (ready, readyTasks, checked)
      | BLOCKED \<Rightarrow> forDeps h deps (False, getReadyTasks h dep (readyTasks, checked)))"
  by pat_completeness auto

text \<open>
  The recursion is nested: the loop continues with the visited set its recursive call
  returned.  That set only grows, and a recursive descent always adds a task to it.
\<close>

lemma checked_grows_dom:
  "getReadyTasks_forDeps_dom (Inl (h, task, rc)) \<Longrightarrow> snd rc \<subseteq> snd (getReadyTasks h task rc)"
  "getReadyTasks_forDeps_dom (Inr (h, deps, acc)) \<Longrightarrow> snd (snd acc) \<subseteq> snd (snd (forDeps h deps acc))"
proof (induction h task rc and h deps acc rule: getReadyTasks_forDeps.pinduct)
  case (1 h task readyTasks checked)
  then show ?case
    by (auto simp: getReadyTasks.psimps split: prod.splits if_splits)
next
  case (2 h acc)
  then show ?case by (simp add: forDeps.psimps)
next
  case (3 h dep deps ready readyTasks checked)
  then show ?case
    by (cases "getState h dep"; cases "getReadyTasks h dep (readyTasks, checked)")
       (auto simp: forDeps.psimps)
qed

termination getReadyTasks
proof (relation "(\<lambda>x. case x of
            Inl (h, task, rt, ch) \<Rightarrow> card (UNIV - ch)
          | Inr (h, deps, r, rt, ch) \<Rightarrow> card (UNIV - ch))
        <*mlex*> (\<lambda>x. case x of
            Inl (h, task, rt, ch) \<Rightarrow> 0::nat
          | Inr (h, deps, r, rt, ch) \<Rightarrow> Suc (length deps)) <*mlex*> {}", goal_cases)
  case 1
  then show ?case by (simp add: wf_mlex)
next
  case (2 h task readyTasks checked)
  have "UNIV - insert task checked \<subset> UNIV - checked"
    using 2 by auto
  then have "card (UNIV - insert task checked) < card (UNIV - checked)"
    by (intro psubset_card_mono) auto
  then show ?case by (simp add: mlex_iff)
next
  case (3 h dep deps ready readyTasks checked)
  then show ?case by (simp add: mlex_iff)
next
  case (4 h dep deps ready readyTasks checked)
  obtain rt' ch' where g: "getReadyTasks h dep (readyTasks, checked) = (rt', ch')"
    by (cases "getReadyTasks h dep (readyTasks, checked)")
  from checked_grows_dom(1)[OF 4(2)] g have "checked \<subseteq> ch'" by simp
  then have "card (UNIV - ch') \<le> card (UNIV - checked)"
    by (intro card_mono) auto
  then show ?case using g by (auto simp: mlex_iff)
next
  case (5 h dep deps ready readyTasks checked)
  then show ?case by (simp add: mlex_iff)
next
  case (6 h dep deps ready readyTasks checked)
  then show ?case by (simp add: mlex_iff)
qed

declare getReadyTasks.simps [simp del]

subsection \<open>Scheduler, Context and executors\<close>

datatype error = AssertionFailed

text \<open>
  The members \<^verbatim>\<open>_executor\<close> and \<^verbatim>\<open>_runningTasks\<close> of \<^verbatim>\<open>TaskRunner\<close>; the counter is
  initialised with \<^verbatim>\<open>0u\<close>, a 32-bit unsigned integer.
\<close>

record TaskRunner =
  executor :: nat
  runningTasks :: "32 word"

text \<open>
  The closures the scheduler submits: the poll of \<^verbatim>\<open>runTask\<close> (line 124), the closure of
  \<^verbatim>\<open>internalRunTask\<close> that runs the body and then posts \<^verbatim>\<open>done\<close> (lines 75-77), and
  \<^verbatim>\<open>done\<close> itself, which calls \<^verbatim>\<open>setTaskDone\<close> (line 74).
\<close>

datatype 'a work = PollTask | TaskBody 'a | SetTaskDone 'a

text \<open>
  Modelled from the spec: the class \<^verbatim>\<open>Context\<close> is declared in a header that is not part of
  the sources.  It couples the root task, the context executor and the completion callback,
  with a flag that guards the callback.
\<close>

record 'a Context =
  rootTask :: 'a
  contextExecutor :: nat
  doneFlag :: bool

record 'a world =
  heap :: "'a heap"
  runner :: TaskRunner
  ctx :: "'a Context"
  pending :: "(nat \<times> 'a work) list"
  doneCalls :: nat
  runLog :: "'a list"

text \<open>
  The constructor (lines 12-16) and the destructor (lines 18-21).
\<close>

definition TaskRunner_new :: "nat \<Rightarrow> TaskRunner" where
  "TaskRunner_new e = \<lparr>executor = e, runningTasks = 0\<rparr>"

definition TaskRunner_destroy :: "TaskRunner \<Rightarrow> error + unit" where
  "TaskRunner_destroy r = (if runningTasks r = 0 then Inr () else Inl AssertionFailed)"

text \<open>
  \<^verbatim>\<open>Executor::execute\<close>: the unit is pending on that executor.
\<close>

definition Executor_execute :: "nat \<Rightarrow> 'a work \<Rightarrow> 'a world \<Rightarrow> 'a world" where
  "Executor_execute e u w = w\<lparr>pending := pending w @ [(e, u)]\<rparr>"

text \<open>
  Modelled from the spec: \<^verbatim>\<open>Context::execute\<close> submits a unit to the context executor.
\<close>

definition Context_execute :: "'a work \<Rightarrow> 'a world \<Rightarrow> 'a world" where
  "Context_execute u w = Executor_execute (contextExecutor (ctx w)) u w"

text \<open>
  Modelled from the spec: \<^verbatim>\<open>Context::done()\<close> reads the flag.
\<close>

definition Context_done :: "'a world \<Rightarrow> bool" where
  "Context_done w = doneFlag (ctx w)"

text \<open>
  Modelled from the spec: \<^verbatim>\<open>Context::setDone()\<close> marks the Context done and invokes the
  completion callback.
\<close>

definition Context_setDone :: "'a world \<Rightarrow> 'a world" where
  "Context_setDone w =
     w\<lparr>ctx := (ctx w)\<lparr>doneFlag := True\<rparr>, doneCalls := Suc (doneCalls w)\<rparr>"

text \<open>
  \<^verbatim>\<open>setTaskRunning\<close> (lines 51-57), \<^verbatim>\<open>internalRunTask\<close> (lines 68-78) and
  \<^verbatim>\<open>internalRunTasks\<close> (lines 80-87).
\<close>

definition setTaskRunning :: "'a \<Rightarrow> 'a world \<Rightarrow> 'a world" where
  "setTaskRunning task w =
     w\<lparr>heap := setRunning task (heap w),
       runner := (runner w)\<lparr>runningTasks := runningTasks (runner w) + 1\<rparr>\<rparr>"

definition internalRunTask :: "'a \<Rightarrow> 'a world \<Rightarrow> error + 'a world" where
  "internalRunTask task w =
     (if getState (heap w) task \<noteq> BLOCKED then Inl AssertionFailed
      else Inr (Executor_execute (executor (runner w)) (TaskBody task) (setTaskRunning task w)))"

fun internalRunTasks :: "'a list \<Rightarrow> 'a world \<Rightarrow> error + 'a world" where
  "internalRunTasks [] w = Inr w"
| "internalRunTasks (task # taskList) w =
     (case internalRunTask task w of
        Inl e \<Rightarrow> Inl e
      | Inr w' \<Rightarrow> internalRunTasks taskList w')"

text \<open>
  \<^verbatim>\<open>pollTask\<close> (lines 100-115) and \<^verbatim>\<open>setTaskDone\<close> (lines 59-66).
\<close>

definition pollTask :: "('a::finite) world \<Rightarrow> error + 'a world" where
  "pollTask w =
     (if Context_done w then Inr w
      else if getState (heap w) (rootTask (ctx w)) = DONE then Inr (Context_setDone w)
      else internalRunTasks (fst (getReadyTasks (heap w) (rootTask (ctx w)) ([], {}))) w)"

definition setTaskDone :: "'a \<Rightarrow> ('a::finite) world \<Rightarrow> error + 'a world" where
  "setTaskDone task w =
     pollTask (w\<lparr>heap := setDone task (heap w),
                 runner := (runner w)\<lparr>runningTasks := runningTasks (runner w) - 1\<rparr>\<rparr>)"

text \<open>
  The asynchronous \<^verbatim>\<open>runTask(rootTask, contextExecutor, doneTask)\<close> (lines 117-125), called on
  the scheduler \<open>r\<close> with the task objects \<open>h\<close>.
\<close>

definition runTask :: "TaskRunner \<Rightarrow> 'a heap \<Rightarrow> 'a \<Rightarrow> nat \<Rightarrow> 'a world" where
  "runTask r h root ctxExecutor =
     Context_execute PollTask
       \<lparr>heap = h, runner = r,
        ctx = \<lparr>rootTask = root, contextExecutor = ctxExecutor, doneFlag = False\<rparr>,
        pending = [], doneCalls = 0, runLog = []\<rparr>"

subsection \<open>Running the units of work\<close>

fun runWork :: "'a work \<Rightarrow> ('a::finite) world \<Rightarrow> error + 'a world" where
  "runWork PollTask w = pollTask w"
| "runWork (TaskBody task) w = Inr (Context_execute (SetTaskDone task) (w\<lparr>runLog := runLog w @ [task]\<rparr>))"
| "runWork (SetTaskDone task) w = setTaskDone task w"

definition removeAt :: "nat \<Rightarrow> 'b list \<Rightarrow> 'b list" where
  "removeAt i xs = take i xs @ drop (Suc i) xs"

text \<open>
  Running the pending unit at position \<open>i\<close>; \<open>step\<close> runs any pending unit, \<open>reaches\<close> is a
  finite run, and \<open>runSchedule\<close> runs the units at the given positions, one after the other.
\<close>

definition executeUnit :: "nat \<Rightarrow> ('a::finite) world \<Rightarrow> error + 'a world" where
  "executeUnit i w = runWork (snd (pending w ! i)) (w\<lparr>pending := removeAt i (pending w)\<rparr>)"

inductive step :: "('a::finite) world \<Rightarrow> 'a world \<Rightarrow> bool" where
  stepI: "i < length (pending w) \<Longrightarrow> executeUnit i w = Inr w' \<Longrightarrow> step w w'"

inductive reaches :: "('a::finite) world \<Rightarrow> 'a world \<Rightarrow> bool" where
  reaches_refl: "reaches w w"
| reaches_step: "reaches w w' \<Longrightarrow> step w' w'' \<Longrightarrow> reaches w w''"

fun runSchedule :: "nat list \<Rightarrow> ('a::finite) world \<Rightarrow> 'a world option" where
  "runSchedule [] w = Some w"
| "runSchedule (i # sched) w =
     (if i < length (pending w)
      then (case executeUnit i w of Inl e \<Rightarrow> None | Inr w' \<Rightarrow> runSchedule sched w')
      else None)"

subsection \<open>The dependency graph\<close>

text \<open>
  \<open>(d, t) \<in> depends h\<close> when \<open>d\<close> is a dependency of \<open>t\<close>; the graph of a root is all it
  depends on, directly or not, and itself.  A ready task is a \<open>BLOCKED\<close> task all of whose
  dependencies are \<open>DONE\<close>.
\<close>

definition depends :: "'a heap \<Rightarrow> ('a \<times> 'a) set" where
  "depends h = {(d, t). d \<in> set (getDependencies h t)}"

definition graphOf :: "'a heap \<Rightarrow> 'a \<Rightarrow> 'a set" where
  "graphOf h root = {t. (t, root) \<in> (depends h)\<^sup>*}"

definition isReady :: "'a heap \<Rightarrow> 'a \<Rightarrow> bool" where
  "isReady h t \<longleftrightarrow>
     getState h t = BLOCKED \<and> (\<forall>d\<in>set (getDependencies h t). getState h d = DONE)"

text \<open>
  The dependency edges between \<open>BLOCKED\<close> tasks that a traversal has not visited yet: the
  edges along which it descends.
\<close>

definition unvisitedBlocked :: "'a heap \<Rightarrow> 'a set \<Rightarrow> ('a \<times> 'a) set" where
  "unvisitedBlocked h checked =
     {(d, t). d \<in> set (getDependencies h t) \<and> getState h d = BLOCKED \<and> getState h t = BLOCKED \<and>
              d \<notin> checked \<and> t \<notin> checked}"

text \<open>
  What a traversal from the tasks \<open>roots\<close> does to the pair of ready list and visited set: the
  visited set grows by \<open>BLOCKED\<close> tasks below the roots, closed under \<open>BLOCKED\<close> dependencies,
  and the ready list grows, without duplicates, by the ready ones among them.
\<close>

definition visits :: "'a heap \<Rightarrow> 'a set \<Rightarrow> 'a list \<times> 'a set \<Rightarrow> 'a list \<times> 'a set \<Rightarrow> bool" where
  "visits h roots rc rc' \<longleftrightarrow>
     snd rc \<subseteq> snd rc' \<and>
     (\<exists>new. fst rc' = fst rc @ new \<and> distinct new \<and>
            set new = {v \<in> snd rc' - snd rc. isReady h v}) \<and>
     (\<forall>v\<in>snd rc' - snd rc.
         getState h v = BLOCKED \<and>
         (\<forall>d\<in>set (getDependencies h v). getState h d = BLOCKED \<longrightarrow> d \<in> snd rc') \<and>
         (\<exists>r\<in>roots. (v, r) \<in> (depends h)\<^sup>*)) \<and>
     (\<forall>r\<in>roots. getState h r = BLOCKED \<longrightarrow> r \<in> snd rc')"

subsection \<open>Closed forms of the operations\<close>

text \<open>
  The ready list of a poll, the effect of dispatching a list of tasks, and the world after a
  poll, after a task body and after the state change of a completion unit.
\<close>

definition readyList :: "('a::finite) world \<Rightarrow> 'a list" where
  "readyList w = fst (getReadyTasks (heap w) (rootTask (ctx w)) ([], {}))"

definition dispatch :: "'a list \<Rightarrow> 'a world \<Rightarrow> 'a world" where
  "dispatch ts w =
     w\<lparr>heap := (\<lambda>t. if t \<in> set ts then (heap w t)\<lparr>state := RUNNING\<rparr> else heap w t),
       runner := (runner w)\<lparr>runningTasks := runningTasks (runner w) + of_nat (length ts)\<rparr>,
       pending := pending w @ map (\<lambda>t. (executor (runner w), TaskBody t)) ts\<rparr>"

definition pollResult :: "('a::finite) world \<Rightarrow> 'a world" where
  "pollResult w =
     (if Context_done w then w
      else if getState (heap w) (rootTask (ctx w)) = DONE then Context_setDone w
      else dispatch (readyList w) w)"

definition taken :: "nat \<Rightarrow> 'a world \<Rightarrow> 'a world" where
  "taken i w = w\<lparr>pending := removeAt i (pending w)\<rparr>"

definition doneUpdate :: "'a \<Rightarrow> 'a world \<Rightarrow> 'a world" where
  "doneUpdate task w =
     w\<lparr>heap := setDone task (heap w),
       runner := (runner w)\<lparr>runningTasks := runningTasks (runner w) - 1\<rparr>\<rparr>"

definition bodyResult :: "'a \<Rightarrow> 'a world \<Rightarrow> 'a world" where
  "bodyResult task w = Context_execute (SetTaskDone task) (w\<lparr>runLog := runLog w @ [task]\<rparr>)"

fun unitResult :: "'a work \<Rightarrow> ('a::finite) world \<Rightarrow> 'a world" where
  "unitResult PollTask w = pollResult w"
| "unitResult (TaskBody task) w = bodyResult task w"
| "unitResult (SetTaskDone task) w = pollResult (doneUpdate task w)"

subsection \<open>Invariants\<close>

text \<open>
  \<open>accounted\<close>: a task is \<open>RUNNING\<close> exactly when one unit for it (its body or its completion)
  is pending, and its body has been submitted once when it is no longer \<open>BLOCKED\<close>.
  \<open>depsDone\<close>: a task that left \<open>BLOCKED\<close> has only \<open>DONE\<close> dependencies.  \<open>counted\<close>: the
  counter is the number of \<open>RUNNING\<close> tasks.  \<open>doneOnce\<close>: the callback has been invoked once
  when the Context is marked done, and not before, and then the root is \<open>DONE\<close>.  \<open>inGraph\<close>:
  only tasks of the root's graph leave \<open>BLOCKED\<close>.  \<open>tagged\<close>: task bodies are pending on the
  scheduler's executor, polls and completions on the context executor.  \<open>live\<close>: the run is done,
  or a poll is pending, or a task is \<open>RUNNING\<close>.  \<open>load\<close> decreases with every unit that runs.
  \<open>stuck h C\<close>: the tasks of \<open>C\<close> are \<open>BLOCKED\<close> and each depends on a task of \<open>C\<close>.
\<close>

definition cntBody :: "'a \<Rightarrow> 'a world \<Rightarrow> nat" where
  "cntBody t w = length (filter (\<lambda>p. snd p = TaskBody t) (pending w))"

definition cntDone :: "'a \<Rightarrow> 'a world \<Rightarrow> nat" where
  "cntDone t w = length (filter (\<lambda>p. snd p = SetTaskDone t) (pending w))"

definition accounted :: "'a world \<Rightarrow> bool" where
  "accounted w \<longleftrightarrow>
     (\<forall>t. cntBody t w + cntDone t w = (if getState (heap w) t = RUNNING then 1 else 0) \<and>
          count_list (runLog w) t + cntBody t w = (if getState (heap w) t = BLOCKED then 0 else 1))"

definition depsDone :: "'a heap \<Rightarrow> bool" where
  "depsDone h \<longleftrightarrow>
     (\<forall>t. getState h t \<noteq> BLOCKED \<longrightarrow> (\<forall>d\<in>set (getDependencies h t). getState h d = DONE))"

definition counted :: "'a world \<Rightarrow> bool" where
  "counted w \<longleftrightarrow> runningTasks (runner w) = of_nat (card {t. getState (heap w) t = RUNNING})"

definition doneOnce :: "'a world \<Rightarrow> bool" where
  "doneOnce w \<longleftrightarrow>
     doneCalls w = (if doneFlag (ctx w) then 1 else 0) \<and>
     (doneFlag (ctx w) \<longrightarrow> getState (heap w) (rootTask (ctx w)) = DONE)"

definition inGraph :: "'a world \<Rightarrow> bool" where
  "inGraph w \<longleftrightarrow> (\<forall>t. getState (heap w) t \<noteq> BLOCKED \<longrightarrow> t \<in> graphOf (heap w) (rootTask (ctx w)))"

fun home :: "'a world \<Rightarrow> 'a work \<Rightarrow> nat" where
  "home w (TaskBody t) = executor (runner w)"
| "home w PollTask = contextExecutor (ctx w)"
| "home w (SetTaskDone t) = contextExecutor (ctx w)"

definition tagged :: "'a world \<Rightarrow> bool" where
  "tagged w \<longleftrightarrow> (\<forall>p\<in>set (pending w). fst p = home w (snd p))"

definition sameShape :: "'a world \<Rightarrow> 'a world \<Rightarrow> bool" where
  "sameShape w w' \<longleftrightarrow>
     executor (runner w') = executor (runner w) \<and>
     rootTask (ctx w') = rootTask (ctx w) \<and>
     contextExecutor (ctx w') = contextExecutor (ctx w) \<and>
     (\<forall>t. getDependencies (heap w') t = getDependencies (heap w) t)"

definition live :: "'a world \<Rightarrow> bool" where
  "live w \<longleftrightarrow>
     doneFlag (ctx w) \<or> (\<exists>p\<in>set (pending w). snd p = PollTask) \<or>
     (\<exists>t. getState (heap w) t = RUNNING)"

fun weight :: "'a work \<Rightarrow> nat" where
  "weight (TaskBody t) = 2"
| "weight PollTask = 1"
| "weight (SetTaskDone t) = 1"

definition load :: "('a::finite) world \<Rightarrow> nat" where
  "load w = 3 * card {t. getState (heap w) t = BLOCKED} + sum_list (map (\<lambda>p. weight (snd p)) (pending w))"

definition schedulerInv :: "('a::finite) world \<Rightarrow> bool" where
  "schedulerInv w \<longleftrightarrow>
     accounted w \<and> depsDone (heap w) \<and> counted w \<and> doneOnce w \<and> inGraph w \<and> tagged w"

definition stuck :: "'a heap \<Rightarrow> 'a set \<Rightarrow> bool" where
  "stuck h C \<longleftrightarrow>
     (\<forall>t\<in>C. getState h t = BLOCKED \<and> (\<exists>d\<in>set (getDependencies h t). d \<in> C))"

subsection \<open>Example graphs\<close>

text \<open>
  The diamond of the spec: \<open>NA\<close> depends on \<open>NB\<close> and \<open>NC\<close>, which both depend on \<open>ND\<close>.
  \<open>pollHeap\<close> is the diamond in the middle of a run; in \<open>cyclic\<close> the tasks \<open>NA\<close> and \<open>NB\<close>
  depend on each other.
\<close>

datatype node = NA | NB | NC | ND

instance node :: finite
proof
  have "(UNIV :: node set) = {NA, NB, NC, ND}"
    using node.exhaust by auto
  then show "finite (UNIV :: node set)"
    by (metis finite.emptyI finite.insertI)
qed

fun diamondDeps :: "node \<Rightarrow> node list" where
  "diamondDeps NA = [NB, NC]"
| "diamondDeps NB = [ND]"
| "diamondDeps NC = [ND]"
| "diamondDeps ND = []"

definition diamond :: "node heap" where
  "diamond t = \<lparr>state = BLOCKED, dependencies = diamondDeps t\<rparr>"

fun diamondRank :: "node \<Rightarrow> nat" where
  "diamondRank NA = 2" | "diamondRank NB = 1" | "diamondRank NC = 1" | "diamondRank ND = 0"

definition pollHeap :: "node heap" where
  "pollHeap t = \<lparr>state = (case t of NA \<Rightarrow> BLOCKED | NB \<Rightarrow> RUNNING | NC \<Rightarrow> BLOCKED | ND \<Rightarrow> DONE),
                 dependencies = diamondDeps t\<rparr>"

fun cyclicDeps :: "node \<Rightarrow> node list" where
  "cyclicDeps NA = [NB]"
| "cyclicDeps NB = [NA, NC]"
| "cyclicDeps NC = []"
| "cyclicDeps ND = []"

definition cyclic :: "node heap" where
  "cyclic t = \<lparr>state = BLOCKED, dependencies = cyclicDeps t\<rparr>"

text \<open>
  \<open>deepHeap\<close>: \<open>NA\<close> depends on \<open>NB\<close>, which is \<open>RUNNING\<close>, and then on \<open>NC\<close>, which is
  \<open>BLOCKED\<close> on the ready task \<open>ND\<close>.
\<close>

fun deepDeps :: "node \<Rightarrow> node list" where
  "deepDeps NA = [NB, NC]"
| "deepDeps NB = []"
| "deepDeps NC = [ND]"
| "deepDeps ND = []"

definition deepHeap :: "node heap" where
  "deepHeap t = \<lparr>state = (case t of NB \<Rightarrow> RUNNING | _ \<Rightarrow> BLOCKED), dependencies = deepDeps t\<rparr>"

text \<open>
  Runs of the scheduler constructed on executor 0 with context executor 1: the diamond to its
  end, after three units and before its last unit; the cyclic graph until nothing is pending
  and after its first poll; and the first poll of the task \<open>ND\<close> alone.
\<close>

definition diamondRun :: "node world option" where
  "diamondRun = runSchedule [0, 0, 0, 0, 1, 0, 0, 0, 0] (runTask (TaskRunner_new 0) diamond NA 1)"

definition diamondMid :: "node world option" where
  "diamondMid = runSchedule [0, 0, 0] (runTask (TaskRunner_new 0) diamond NA 1)"

definition diamondLast :: "node world option" where
  "diamondLast = runSchedule [0, 0, 0, 0, 1, 0, 0, 0] (runTask (TaskRunner_new 0) diamond NA 1)"

definition cyclicRun :: "node world option" where
  "cyclicRun = runSchedule [0, 0, 0] (runTask (TaskRunner_new 0) cyclic NA 1)"

definition cyclicMid :: "node world option" where
  "cyclicMid = runSchedule [0] (runTask (TaskRunner_new 0) cyclic NA 1)"

definition singleFirst :: "node world option" where
  "singleFirst = runSchedule [0] (runTask (TaskRunner_new 0) diamond ND 1)"

section \<open>Properties of the traversal and of the scheduler\<close>

lemma forDeps_fold:
  "forDeps h deps (ready, rt, ch) =
     (ready \<and> (\<forall>d\<in>set deps. getState h d = DONE),
      fold (getReadyTasks h) (filter (\<lambda>d. getState h d = BLOCKED) deps) (rt, ch))"
proof (induction deps arbitrary: ready rt ch)
  case Nil
  then show ?case by simp
next
  case (Cons d deps)
  show ?case
  proof (cases "getState h d")
    case BLOCKED
    obtain rt' ch' where g: "getReadyTasks h d (rt, ch) = (rt', ch')"
      by (cases "getReadyTasks h d (rt, ch)") auto
    show ?thesis using BLOCKED g Cons.IH[of False rt' ch'] by simp
  next
    case RUNNING
    then show ?thesis using Cons.IH[of False rt ch] by simp
  next
    case DONE
    then show ?thesis using Cons.IH[of ready rt ch] by simp
  qed
qed

lemma visits_sub: "visits h R rc rc' \<Longrightarrow> snd rc \<subseteq> snd rc'"
  unfolding visits_def by blast

lemma visits_new:
  "visits h R rc rc' \<Longrightarrow>
   \<exists>new. fst rc' = fst rc @ new \<and> distinct new \<and> set new = {v \<in> snd rc' - snd rc. isReady h v}"
  unfolding visits_def by blast

lemma visits_blocked: "visits h R rc rc' \<Longrightarrow> v \<in> snd rc' \<Longrightarrow> v \<notin> snd rc \<Longrightarrow> getState h v = BLOCKED"
  unfolding visits_def by blast

lemma visits_closed:
  "visits h R rc rc' \<Longrightarrow> v \<in> snd rc' \<Longrightarrow> v \<notin> snd rc \<Longrightarrow>
   d \<in> set (getDependencies h v) \<Longrightarrow> getState h d = BLOCKED \<Longrightarrow> d \<in> snd rc'"
  unfolding visits_def by blast

lemma visits_below:
  "visits h R rc rc' \<Longrightarrow> v \<in> snd rc' \<Longrightarrow> v \<notin> snd rc \<Longrightarrow> \<exists>r\<in>R. (v, r) \<in> (depends h)\<^sup>*"
  unfolding visits_def by blast

lemma visits_roots: "visits h R rc rc' \<Longrightarrow> r \<in> R \<Longrightarrow> getState h r = BLOCKED \<Longrightarrow> r \<in> snd rc'"
  unfolding visits_def by blast

lemma visitsI:
  assumes "snd rc \<subseteq> snd rc'"
    and "fst rc' = fst rc @ new" "distinct new" "set new = {v \<in> snd rc' - snd rc. isReady h v}"
    and "\<And>v. v \<in> snd rc' \<Longrightarrow> v \<notin> snd rc \<Longrightarrow> getState h v = BLOCKED"
    and "\<And>v d. v \<in> snd rc' \<Longrightarrow> v \<notin> snd rc \<Longrightarrow> d \<in> set (getDependencies h v) \<Longrightarrow>
            getState h d = BLOCKED \<Longrightarrow> d \<in> snd rc'"
    and "\<And>v. v \<in> snd rc' \<Longrightarrow> v \<notin> snd rc \<Longrightarrow> \<exists>r\<in>R. (v, r) \<in> (depends h)\<^sup>*"
    and "\<And>r. r \<in> R \<Longrightarrow> getState h r = BLOCKED \<Longrightarrow> r \<in> snd rc'"
  shows "visits h R rc rc'"
  unfolding visits_def
proof (intro conjI ballI impI)
  show "\<exists>new. fst rc' = fst rc @ new \<and> distinct new \<and> set new = {v \<in> snd rc' - snd rc. isReady h v}"
    using assms(2,3,4) by blast
next
  show "snd rc \<subseteq> snd rc'" by (rule assms(1))
next
  fix v assume "v \<in> snd rc' - snd rc"
  then show "getState h v = BLOCKED" using assms(5)[of v] by simp
next
  fix v d assume "v \<in> snd rc' - snd rc" "d \<in> set (getDependencies h v)" "getState h d = BLOCKED"
  then show "d \<in> snd rc'" using assms(6)[of v d] by simp
next
  fix v assume "v \<in> snd rc' - snd rc"
  then show "\<exists>r\<in>R. (v, r) \<in> (depends h)\<^sup>*" using assms(7)[of v] by simp
next
  fix r assume "r \<in> R" "getState h r = BLOCKED"
  then show "r \<in> snd rc'" using assms(8)[of r] by simp
qed

lemma visits_trans:
  assumes a: "visits h R1 rc rc'" and b: "visits h R2 rc' rc''"
  shows "visits h (R1 \<union> R2) rc rc''"
proof -
  from visits_new[OF a] obtain n1 where n1: "fst rc' = fst rc @ n1" "distinct n1"
      "set n1 = {v \<in> snd rc' - snd rc. isReady h v}"
    by blast
  from visits_new[OF b] obtain n2 where n2: "fst rc'' = fst rc' @ n2" "distinct n2"
      "set n2 = {v \<in> snd rc'' - snd rc'. isReady h v}"
    by blast
  note sub = visits_sub[OF a] visits_sub[OF b]
  have 1: "fst rc'' = fst rc @ (n1 @ n2)" using n1 n2 by simp
  have "set n1 \<inter> set n2 = {}" using n1(3) n2(3) by blast
  then have 2: "distinct (n1 @ n2)" using n1(2) n2(2) by simp
  have "snd rc'' - snd rc = (snd rc' - snd rc) \<union> (snd rc'' - snd rc')"
    using sub by blast
  then have 3: "set (n1 @ n2) = {v \<in> snd rc'' - snd rc. isReady h v}"
    using n1(3) n2(3) by auto
  show ?thesis
  proof (rule visitsI[OF _ 1 2 3])
    show "snd rc \<subseteq> snd rc''" using sub by blast
  next
    fix v assume v: "v \<in> snd rc''" "v \<notin> snd rc"
    show "getState h v = BLOCKED"
      using visits_blocked[OF a, of v] visits_blocked[OF b, of v] v by blast
    show "\<exists>r\<in>R1 \<union> R2. (v, r) \<in> (depends h)\<^sup>*"
      using visits_below[OF a, of v] visits_below[OF b, of v] v by blast
    fix d assume d: "d \<in> set (getDependencies h v)" "getState h d = BLOCKED"
    show "d \<in> snd rc''"
      using visits_closed[OF a _ _ d] visits_closed[OF b _ _ d] v sub by blast
  next
    fix r assume "r \<in> R1 \<union> R2" "getState h r = BLOCKED"
    then show "r \<in> snd rc''"
      using visits_roots[OF a, of r] visits_roots[OF b, of r] sub by blast
  qed
qed

lemma visits_roots_mono:
  "visits h R rc rc' \<Longrightarrow> R \<subseteq> R' \<Longrightarrow> \<forall>r\<in>R' - R. getState h r \<noteq> BLOCKED \<Longrightarrow> visits h R' rc rc'"
  unfolding visits_def by blast

lemma visits_refl:
  "\<forall>r\<in>roots. getState h r = BLOCKED \<longrightarrow> r \<in> snd rc \<Longrightarrow> visits h roots rc rc"
  by (simp add: visits_def)

lemma isReady_forDeps_flag:
  "getState h task = BLOCKED \<Longrightarrow>
   fst (forDeps h (getDependencies h task) (True, rt, ch)) = isReady h task"
  by (simp add: forDeps_fold isReady_def)

lemma visits_getReadyTasks_forDeps:
  "visits h {task} rc (getReadyTasks h task rc)"
  "visits h (set deps) (snd acc) (snd (forDeps h deps acc))"
proof (induction h task rc and h deps acc rule: getReadyTasks_forDeps.induct)
  case (1 h task readyTasks checked)
  show ?case
  proof (cases "getState h task \<noteq> BLOCKED \<or> task \<in> checked")
    case True
    then have "getReadyTasks h task (readyTasks, checked) = (readyTasks, checked)"
      by (auto simp: getReadyTasks.simps)
    then show ?thesis using True by (auto intro!: visits_refl)
  next
    case False
    then have bl: "getState h task = BLOCKED" and nc: "task \<notin> checked" by auto
    obtain ready rt1 ch1 where
      fd: "forDeps h (getDependencies h task) (True, readyTasks, insert task checked) = (ready, rt1, ch1)"
      by (cases "forDeps h (getDependencies h task) (True, readyTasks, insert task checked)") auto
    have rdy: "ready = isReady h task"
      using isReady_forDeps_flag[OF bl, of readyTasks "insert task checked"] fd by simp
    have res: "getReadyTasks h task (readyTasks, checked) =
                 (if ready then rt1 @ [task] else rt1, ch1)"
      using bl nc fd by (simp add: getReadyTasks.simps)
    from 1 bl nc fd have v: "visits h (set (getDependencies h task)) (readyTasks, insert task checked) (rt1, ch1)"
      by simp
    from visits_new[OF v] obtain new where new: "rt1 = readyTasks @ new" "distinct new"
      "set new = {v \<in> ch1 - insert task checked. isReady h v}" by auto
    have sub: "insert task checked \<subseteq> ch1" using visits_sub[OF v] by simp
    let ?new = "new @ (if ready then [task] else [])"
    have "visits h {task} (readyTasks, checked) (if ready then rt1 @ [task] else rt1, ch1)"
    proof (rule visitsI[where new = ?new])
      show "snd (readyTasks, checked) \<subseteq> snd (if ready then rt1 @ [task] else rt1, ch1)"
        using sub by auto
      show "fst (if ready then rt1 @ [task] else rt1, ch1) = fst (readyTasks, checked) @ ?new"
        using new(1) by simp
      show "distinct ?new" using new(2,3) by auto
      have "ch1 - checked = insert task (ch1 - insert task checked)"
        using sub nc by blast
      then show "set ?new = {v \<in> snd (if ready then rt1 @ [task] else rt1, ch1) - snd (readyTasks, checked). isReady h v}"
        using new(3) rdy by auto
    next
      fix v assume v1: "v \<in> snd (if ready then rt1 @ [task] else rt1, ch1)" "v \<notin> snd (readyTasks, checked)"
      show "getState h v = BLOCKED"
        using visits_blocked[OF v, of v] v1 bl by (cases "v = task") auto
      show "\<exists>r\<in>{task}. (v, r) \<in> (depends h)\<^sup>*"
      proof (cases "v = task")
        case True
        then show ?thesis by simp
      next
        case False
        with visits_below[OF v, of v] v1 obtain d where
          d: "d \<in> set (getDependencies h task)" "(v, d) \<in> (depends h)\<^sup>*" by auto
        have "(d, task) \<in> depends h" using d(1) by (simp add: depends_def)
        with d(2) show ?thesis by (auto intro: rtrancl_into_rtrancl)
      qed
      fix d assume d: "d \<in> set (getDependencies h v)" "getState h d = BLOCKED"
      show "d \<in> snd (if ready then rt1 @ [task] else rt1, ch1)"
      proof (cases "v = task")
        case True
        then show ?thesis using visits_roots[OF v, of d] d by simp
      next
        case False
        then show ?thesis using visits_closed[OF v _ _ d] v1 by simp
      qed
    next
      fix r assume "r \<in> {task}" "getState h r = BLOCKED"
      then show "r \<in> snd (if ready then rt1 @ [task] else rt1, ch1)" using sub by auto
    qed
    then show ?thesis using res by simp
  qed
next
  case (2 h acc)
  then show ?case by (simp add: visits_refl)
next
  case (3 h dep deps ready readyTasks checked)
  show ?case
  proof (cases "getState h dep")
    case BLOCKED
    obtain rt1 ch1 where g: "getReadyTasks h dep (readyTasks, checked) = (rt1, ch1)"
      by (cases "getReadyTasks h dep (readyTasks, checked)") auto
    from 3(1)[OF BLOCKED] g have a: "visits h {dep} (readyTasks, checked) (rt1, ch1)" by simp
    from 3(2)[OF BLOCKED] g have b: "visits h (set deps) (rt1, ch1) (snd (forDeps h deps (False, rt1, ch1)))"
      by simp
    from visits_trans[OF a b] show ?thesis using BLOCKED g by simp
  next
    case RUNNING
    from 3(3)[OF RUNNING] have "visits h (set deps) (readyTasks, checked) (snd (forDeps h deps (False, readyTasks, checked)))"
      by simp
    then have "visits h (insert dep (set deps)) (readyTasks, checked) (snd (forDeps h deps (False, readyTasks, checked)))"
      by (rule visits_roots_mono) (use RUNNING in auto)
    then show ?thesis using RUNNING by simp
  next
    case DONE
    from 3(4)[OF DONE] have "visits h (set deps) (readyTasks, checked) (snd (forDeps h deps (ready, readyTasks, checked)))"
      by simp
    then have "visits h (insert dep (set deps)) (readyTasks, checked) (snd (forDeps h deps (ready, readyTasks, checked)))"
      by (rule visits_roots_mono) (use DONE in auto)
    then show ?thesis using DONE by simp
  qed
qed

lemma finite_depends: "finite (depends (h :: ('a::finite) heap))"
  by (rule finite_subset[of _ UNIV]) auto

lemma wf_depends: "acyclic (depends (h :: ('a::finite) heap)) \<Longrightarrow> wf (depends h)"
  by (simp add: finite_acyclic_wf finite_depends)

lemma root_visits:
  "visits h {root} ([], {}) (getReadyTasks h root ([], {}))"
  by (rule visits_getReadyTasks_forDeps(1))

lemma readyTasks_distinct: "distinct (fst (getReadyTasks h root ([], {})))"
  using visits_new[OF root_visits[of h root]] by auto

lemma readyTasks_set:
  "set (fst (getReadyTasks h root ([], {}))) = {v \<in> snd (getReadyTasks h root ([], {})). isReady h v}"
  using visits_new[OF root_visits[of h root]] by auto

lemma readyTasks_isReady: "t \<in> set (fst (getReadyTasks h root ([], {}))) \<Longrightarrow> isReady h t"
  by (simp add: readyTasks_set)

lemma checked_graphOf: "t \<in> snd (getReadyTasks h root ([], {})) \<Longrightarrow> t \<in> graphOf h root"
  using visits_below[OF root_visits[of h root], of t] by (simp add: graphOf_def)

lemma readyTasks_graphOf: "t \<in> set (fst (getReadyTasks h root ([], {}))) \<Longrightarrow> t \<in> graphOf h root"
  by (simp add: readyTasks_set checked_graphOf)

lemma poll_progress:
  fixes h :: "('a::finite) heap"
  assumes ac: "acyclic (depends h)" and bl: "getState h root = BLOCKED"
  shows "(\<exists>t. getState h t = RUNNING) \<or> fst (getReadyTasks h root ([], {})) \<noteq> []"
proof -
  let ?ch = "snd (getReadyTasks h root ([], {}))"
  have rin: "root \<in> ?ch" using visits_roots[OF root_visits[of h root], of root] bl by simp
  from wf_depends[OF ac] have "wf (depends h)" .
  from wfE_min[OF this rin] obtain z where z: "z \<in> ?ch" "\<And>y. (y, z) \<in> depends h \<Longrightarrow> y \<notin> ?ch"
    by blast
  have zb: "getState h z = BLOCKED" using visits_blocked[OF root_visits[of h root], of z] z(1) by simp
  have nb: "getState h d \<noteq> BLOCKED" if "d \<in> set (getDependencies h z)" for d
  proof
    assume "getState h d = BLOCKED"
    then have "d \<in> ?ch" using visits_closed[OF root_visits[of h root], of z d] z(1) that by simp
    moreover have "(d, z) \<in> depends h" using that by (simp add: depends_def)
    ultimately show False using z(2) by blast
  qed
  show ?thesis
  proof (cases "\<exists>d\<in>set (getDependencies h z). getState h d = RUNNING")
    case True
    then show ?thesis by blast
  next
    case False
    have "getState h d = DONE" if "d \<in> set (getDependencies h z)" for d
      using nb[OF that] False that by (cases "getState h d") auto
    then have "isReady h z" using zb by (simp add: isReady_def)
    then have "z \<in> set (fst (getReadyTasks h root ([], {})))" using z(1) by (simp add: readyTasks_set)
    then show ?thesis by auto
  qed
qed

lemma internalRunTasks_dispatch:
  "distinct ts \<Longrightarrow> \<forall>t\<in>set ts. getState (heap w) t = BLOCKED \<Longrightarrow>
   internalRunTasks ts w = Inr (dispatch ts w)"
proof (induction ts arbitrary: w)
  case Nil
  then show ?case by (simp add: dispatch_def)
next
  case (Cons t ts)
  let ?w1 = "Executor_execute (executor (runner w)) (TaskBody t) (setTaskRunning t w)"
  have 1: "internalRunTask t w = Inr ?w1" using Cons.prems by (simp add: internalRunTask_def)
  have 2: "\<forall>t'\<in>set ts. getState (heap ?w1) t' = BLOCKED"
    using Cons.prems by (auto simp: Executor_execute_def setTaskRunning_def setRunning_def getState_def)
  have 3: "internalRunTasks ts ?w1 = Inr (dispatch ts ?w1)"
    using Cons.IH[OF _ 2] Cons.prems by simp
  have 4: "dispatch ts ?w1 = dispatch (t # ts) w"
    by (auto simp: dispatch_def Executor_execute_def setTaskRunning_def setRunning_def fun_eq_iff)
  show ?case using 1 3 4 by simp
qed

lemma pollTask_pollResult: "pollTask w = Inr (pollResult w)"
proof -
  have "internalRunTasks (readyList w) w = Inr (dispatch (readyList w) w)"
  proof (rule internalRunTasks_dispatch)
    show "distinct (readyList w)" by (simp add: readyList_def readyTasks_distinct)
    show "\<forall>t\<in>set (readyList w). getState (heap w) t = BLOCKED"
      using readyTasks_isReady[of _ "heap w" "rootTask (ctx w)"] by (auto simp: readyList_def isReady_def)
  qed
  then show ?thesis by (simp add: pollTask_def pollResult_def readyList_def)
qed

lemma runWork_unitResult: "runWork u w = Inr (unitResult u w)"
  by (cases u) (simp_all add: pollTask_pollResult setTaskDone_def doneUpdate_def bodyResult_def)

lemma executeUnit_unitResult:
  "executeUnit i w = Inr (unitResult (snd (pending w ! i)) (taken i w))"
  by (simp add: executeUnit_def runWork_unitResult taken_def)

lemma step_iff:
  "step w w' \<longleftrightarrow> (\<exists>i<length (pending w). w' = unitResult (snd (pending w ! i)) (taken i w))"
  by (auto simp: step.simps executeUnit_unitResult)

lemma stepE_cases:
  assumes "step w w'"
  obtains (unitPoll) i where "i < length (pending w)" "snd (pending w ! i) = PollTask"
                       "w' = pollResult (taken i w)"
  | (unitBody) i t where "i < length (pending w)" "snd (pending w ! i) = TaskBody t"
                       "w' = bodyResult t (taken i w)"
  | (unitDone) i t where "i < length (pending w)" "snd (pending w ! i) = SetTaskDone t"
                       "w' = pollResult (doneUpdate t (taken i w))"
proof -
  from assms obtain i where i: "i < length (pending w)"
      "w' = unitResult (snd (pending w ! i)) (taken i w)"
    by (auto simp: step_iff)
  show ?thesis
    using i unitPoll unitBody unitDone by (cases "snd (pending w ! i)") auto
qed

lemma removeAt_filter_length:
  "i < length xs \<Longrightarrow>
   length (filter P (removeAt i xs)) + (if P (xs ! i) then 1 else 0) = length (filter P xs)"
proof -
  assume i: "i < length xs"
  have "xs = take i xs @ xs ! i # drop (Suc i) xs" using i by (simp add: id_take_nth_drop)
  then have "filter P xs = filter P (take i xs) @ filter P [xs ! i] @ filter P (drop (Suc i) xs)"
    by (metis append_Cons append_Nil filter_append)
  then show ?thesis by (simp add: removeAt_def)
qed

lemma set_removeAt: "set (removeAt i xs) \<subseteq> set xs"
  by (auto simp: removeAt_def dest: in_set_takeD in_set_dropD)

lemma set_removeAt_other:
  "i < length xs \<Longrightarrow> p \<in> set xs \<Longrightarrow> p \<noteq> xs ! i \<Longrightarrow> p \<in> set (removeAt i xs)"
proof -
  assume i: "i < length xs" and p: "p \<in> set xs" "p \<noteq> xs ! i"
  have "xs = take i xs @ xs ! i # drop (Suc i) xs" using i by (simp add: id_take_nth_drop)
  then have "set xs = set (take i xs) \<union> {xs ! i} \<union> set (drop (Suc i) xs)"
    by (metis Un_insert_right append_Nil2 list.simps(15) set_append sup_bot.right_neutral Un_assoc insert_is_Un)
  then show ?thesis using p by (auto simp: removeAt_def)
qed

lemma taken_simps:
  "heap (taken i w) = heap w" "runner (taken i w) = runner w" "ctx (taken i w) = ctx w"
  "pending (taken i w) = removeAt i (pending w)" "doneCalls (taken i w) = doneCalls w"
  "runLog (taken i w) = runLog w"
  by (simp_all add: taken_def)

lemma doneUpdate_simps:
  "heap (doneUpdate t w) = setDone t (heap w)"
  "executor (runner (doneUpdate t w)) = executor (runner w)"
  "runningTasks (runner (doneUpdate t w)) = runningTasks (runner w) - 1"
  "ctx (doneUpdate t w) = ctx w"
  "pending (doneUpdate t w) = pending w" "doneCalls (doneUpdate t w) = doneCalls w"
  "runLog (doneUpdate t w) = runLog w"
  by (simp_all add: doneUpdate_def)

lemma bodyResult_simps:
  "heap (bodyResult t w) = heap w" "runner (bodyResult t w) = runner w" "ctx (bodyResult t w) = ctx w"
  "pending (bodyResult t w) = pending w @ [(contextExecutor (ctx w), SetTaskDone t)]"
  "doneCalls (bodyResult t w) = doneCalls w"
  "runLog (bodyResult t w) = runLog w @ [t]"
  by (simp_all add: bodyResult_def Context_execute_def Executor_execute_def)

lemma Context_setDone_simps:
  "heap (Context_setDone w) = heap w" "runner (Context_setDone w) = runner w"
  "rootTask (ctx (Context_setDone w)) = rootTask (ctx w)"
  "contextExecutor (ctx (Context_setDone w)) = contextExecutor (ctx w)"
  "doneFlag (ctx (Context_setDone w)) = True"
  "pending (Context_setDone w) = pending w" "doneCalls (Context_setDone w) = Suc (doneCalls w)"
  "runLog (Context_setDone w) = runLog w"
  by (simp_all add: Context_setDone_def)

lemma dispatch_simps:
  "heap (dispatch ts w) = (\<lambda>t. if t \<in> set ts then (heap w t)\<lparr>state := RUNNING\<rparr> else heap w t)"
  "executor (runner (dispatch ts w)) = executor (runner w)"
  "runningTasks (runner (dispatch ts w)) = runningTasks (runner w) + of_nat (length ts)"
  "ctx (dispatch ts w) = ctx w"
  "pending (dispatch ts w) = pending w @ map (\<lambda>t. (executor (runner w), TaskBody t)) ts"
  "doneCalls (dispatch ts w) = doneCalls w"
  "runLog (dispatch ts w) = runLog w"
  by (simp_all add: dispatch_def)

lemma getState_dispatch:
  "getState (heap (dispatch ts w)) t = (if t \<in> set ts then RUNNING else getState (heap w) t)"
  by (simp add: dispatch_simps getState_def)

lemma getDependencies_dispatch:
  "getDependencies (heap (dispatch ts w)) t = getDependencies (heap w) t"
  by (simp add: dispatch_simps getDependencies_def)

lemma getState_setDone:
  "getState (setDone t h) t' = (if t' = t then DONE else getState h t')"
  by (simp add: setDone_def getState_def)

lemma getDependencies_setDone:
  "getDependencies (setDone t h) t' = getDependencies h t'"
  by (simp add: setDone_def getDependencies_def)

lemma accountedD:
  "accounted w \<Longrightarrow> cntBody t w + cntDone t w = (if getState (heap w) t = RUNNING then 1 else 0)"
  "accounted w \<Longrightarrow> count_list (runLog w) t + cntBody t w = (if getState (heap w) t = BLOCKED then 0 else 1)"
  by (simp_all add: accounted_def)

lemma cntBody_taken:
  "i < length (pending w) \<Longrightarrow>
   cntBody t (taken i w) + (if snd (pending w ! i) = TaskBody t then 1 else 0) = cntBody t w"
  using removeAt_filter_length[of i "pending w" "\<lambda>p. snd p = TaskBody t"]
  by (simp add: cntBody_def taken_simps)

lemma cntDone_taken:
  "i < length (pending w) \<Longrightarrow>
   cntDone t (taken i w) + (if snd (pending w ! i) = SetTaskDone t then 1 else 0) = cntDone t w"
  using removeAt_filter_length[of i "pending w" "\<lambda>p. snd p = SetTaskDone t"]
  by (simp add: cntDone_def taken_simps)

lemma accounted_taken_poll:
  assumes "accounted w" "i < length (pending w)" "snd (pending w ! i) = PollTask"
  shows "accounted (taken i w)"
proof -
  have "cntBody t (taken i w) = cntBody t w" "cntDone t (taken i w) = cntDone t w" for t
    using cntBody_taken[OF assms(2), of t] cntDone_taken[OF assms(2), of t] assms(3) by simp_all
  then show ?thesis using assms(1) by (simp add: accounted_def taken_simps)
qed

lemma accounted_bodyResult:
  assumes a: "accounted w" and i: "i < length (pending w)" and u: "snd (pending w ! i) = TaskBody t"
  shows "accounted (bodyResult t (taken i w))"
proof -
  have b: "cntBody t' (bodyResult t (taken i w)) + (if t' = t then 1 else 0) = cntBody t' w" for t'
    using cntBody_taken[OF i, of t'] u by (auto simp: cntBody_def bodyResult_simps taken_simps)
  have d: "cntDone t' (bodyResult t (taken i w)) = cntDone t' w + (if t' = t then 1 else 0)" for t'
    using cntDone_taken[OF i, of t'] u by (auto simp: cntDone_def bodyResult_simps taken_simps)
  show ?thesis
    unfolding accounted_def
  proof (intro allI conjI)
    fix t'
    show "cntBody t' (bodyResult t (taken i w)) + cntDone t' (bodyResult t (taken i w)) =
          (if getState (heap (bodyResult t (taken i w))) t' = RUNNING then 1 else 0)"
      using accountedD(1)[OF a, of t'] b[of t'] d[of t']
      by (simp add: bodyResult_simps taken_simps split: if_splits)
    show "count_list (runLog (bodyResult t (taken i w))) t' + cntBody t' (bodyResult t (taken i w)) =
          (if getState (heap (bodyResult t (taken i w))) t' = BLOCKED then 0 else 1)"
      using accountedD(2)[OF a, of t'] b[of t'] d[of t']
      by (simp add: bodyResult_simps taken_simps split: if_splits)
  qed
qed

lemma accounted_done_running:
  assumes a: "accounted w" and i: "i < length (pending w)" and u: "snd (pending w ! i) = SetTaskDone t"
  shows "getState (heap w) t = RUNNING"
proof (rule ccontr)
  assume "getState (heap w) t \<noteq> RUNNING"
  then have "cntDone t w = 0" using accountedD(1)[OF a, of t] by simp
  then show False using cntDone_taken[OF i, of t] u by simp
qed

lemma accounted_doneUpdate:
  assumes a: "accounted w" and i: "i < length (pending w)" and u: "snd (pending w ! i) = SetTaskDone t"
  shows "accounted (doneUpdate t (taken i w))"
proof -
  have r: "getState (heap w) t = RUNNING" by (rule accounted_done_running[OF a i u])
  have b: "cntBody t' (doneUpdate t (taken i w)) = cntBody t' w" for t'
    using cntBody_taken[OF i, of t'] u by (auto simp: cntBody_def doneUpdate_simps taken_simps)
  have d: "cntDone t' (doneUpdate t (taken i w)) + (if t' = t then 1 else 0) = cntDone t' w" for t'
    using cntDone_taken[OF i, of t'] u by (auto simp: cntDone_def doneUpdate_simps taken_simps)
  show ?thesis
    unfolding accounted_def
  proof (intro allI conjI)
    fix t'
    show "cntBody t' (doneUpdate t (taken i w)) + cntDone t' (doneUpdate t (taken i w)) =
          (if getState (heap (doneUpdate t (taken i w))) t' = RUNNING then 1 else 0)"
      using accountedD(1)[OF a, of t'] b[of t'] d[of t'] r
      by (simp add: doneUpdate_simps taken_simps getState_setDone split: if_splits)
    show "count_list (runLog (doneUpdate t (taken i w))) t' + cntBody t' (doneUpdate t (taken i w)) =
          (if getState (heap (doneUpdate t (taken i w))) t' = BLOCKED then 0 else 1)"
      using accountedD(2)[OF a, of t'] b[of t'] d[of t'] r
      by (simp add: doneUpdate_simps taken_simps getState_setDone split: if_splits)
  qed
qed

lemma distinct_filter_eq_length:
  "distinct ts \<Longrightarrow> length (filter (\<lambda>x. x = t) ts) = (if t \<in> set ts then 1 else 0)"
  by (induction ts) auto

lemma cnt_map_body:
  "distinct ts \<Longrightarrow>
   length (filter (\<lambda>p. snd p = TaskBody t) (map (\<lambda>t. (ex, TaskBody t)) ts)) = (if t \<in> set ts then 1 else 0)"
  using distinct_filter_eq_length[of ts t] by (simp add: filter_map o_def)

lemma cnt_map_done:
  "length (filter (\<lambda>p. snd p = SetTaskDone t) (map (\<lambda>t. (ex, TaskBody t)) ts)) = 0"
  by (simp add: filter_map o_def)

lemma accounted_dispatch:
  assumes a: "accounted w" and d: "distinct ts" and bl: "\<forall>t\<in>set ts. getState (heap w) t = BLOCKED"
  shows "accounted (dispatch ts w)"
proof -
  have b: "cntBody t (dispatch ts w) = cntBody t w + (if t \<in> set ts then 1 else 0)" for t
    using cnt_map_body[OF d, where t = t and ex = "executor (runner w)"] by (simp add: cntBody_def dispatch_simps)
  have e: "cntDone t (dispatch ts w) = cntDone t w" for t
    using cnt_map_done[where t = t and ex = "executor (runner w)" and ts = ts] by (simp add: cntDone_def dispatch_simps)
  show ?thesis
    unfolding accounted_def
  proof (intro allI conjI)
    fix t
    show "cntBody t (dispatch ts w) + cntDone t (dispatch ts w) =
          (if getState (heap (dispatch ts w)) t = RUNNING then 1 else 0)"
      using accountedD(1)[OF a, of t] b[of t] e[of t] bl
      by (auto simp: getState_dispatch split: if_splits)
    show "count_list (runLog (dispatch ts w)) t + cntBody t (dispatch ts w) =
          (if getState (heap (dispatch ts w)) t = BLOCKED then 0 else 1)"
      using accountedD(2)[OF a, of t] b[of t] e[of t] bl
      by (auto simp: getState_dispatch dispatch_simps(7) split: if_splits)
  qed
qed

lemma readyList_distinct: "distinct (readyList w)"
  by (simp add: readyList_def readyTasks_distinct)

lemma readyList_isReady: "t \<in> set (readyList w) \<Longrightarrow> isReady (heap w) t"
  by (simp add: readyList_def readyTasks_isReady)

lemma readyList_blocked: "t \<in> set (readyList w) \<Longrightarrow> getState (heap w) t = BLOCKED"
  using readyList_isReady[of t w] by (simp add: isReady_def)

lemma accounted_Context_setDone: "accounted w \<Longrightarrow> accounted (Context_setDone w)"
  by (simp add: accounted_def cntBody_def cntDone_def Context_setDone_simps)

lemma accounted_pollResult: "accounted w \<Longrightarrow> accounted (pollResult w)"
  by (simp add: pollResult_def accounted_Context_setDone accounted_dispatch
        readyList_distinct readyList_blocked)

lemma accounted_step: "accounted w \<Longrightarrow> step w w' \<Longrightarrow> accounted w'"
  by (erule stepE_cases)
     (simp_all add: accounted_pollResult accounted_taken_poll accounted_bodyResult accounted_doneUpdate)

lemma depsDoneD:
  "depsDone h \<Longrightarrow> getState h t \<noteq> BLOCKED \<Longrightarrow> d \<in> set (getDependencies h t) \<Longrightarrow> getState h d = DONE"
  by (simp add: depsDone_def)

lemma depsDone_setDone:
  assumes "depsDone h" "getState h t = RUNNING"
  shows "depsDone (setDone t h)"
  unfolding depsDone_def
proof (intro allI impI ballI)
  fix t' d assume a: "getState (setDone t h) t' \<noteq> BLOCKED" "d \<in> set (getDependencies (setDone t h) t')"
  have "getState h t' \<noteq> BLOCKED" using a(1) assms(2) by (auto simp: getState_setDone split: if_splits)
  then have "getState h d = DONE" using depsDoneD[OF assms(1), of t' d] a(2)
    by (simp add: getDependencies_setDone)
  then show "getState (setDone t h) d = DONE" by (simp add: getState_setDone)
qed

lemma depsDone_dispatch:
  assumes "depsDone (heap w)" "\<forall>t\<in>set ts. isReady (heap w) t"
  shows "depsDone (heap (dispatch ts w))"
  unfolding depsDone_def
proof (intro allI impI ballI)
  fix t d assume a: "getState (heap (dispatch ts w)) t \<noteq> BLOCKED"
    "d \<in> set (getDependencies (heap (dispatch ts w)) t)"
  have d: "d \<in> set (getDependencies (heap w) t)" using a(2) by (simp add: getDependencies_dispatch)
  have "getState (heap w) d = DONE"
  proof (cases "t \<in> set ts")
    case True
    then show ?thesis using assms(2) d by (auto simp: isReady_def)
  next
    case False
    then have "getState (heap w) t \<noteq> BLOCKED" using a(1) by (simp add: getState_dispatch)
    then show ?thesis using depsDoneD[OF assms(1) _ d] by simp
  qed
  moreover have "d \<notin> set ts"
  proof
    assume "d \<in> set ts"
    then have "getState (heap w) d = BLOCKED" using assms(2) by (auto simp: isReady_def)
    with \<open>getState (heap w) d = DONE\<close> show False by simp
  qed
  ultimately show "getState (heap (dispatch ts w)) d = DONE" by (simp add: getState_dispatch)
qed

lemma depsDone_pollResult: "depsDone (heap w) \<Longrightarrow> depsDone (heap (pollResult w))"
  by (simp add: pollResult_def Context_setDone_simps depsDone_dispatch readyList_isReady)

lemma depsDone_step:
  assumes "accounted w" "depsDone (heap w)" "step w w'"
  shows "depsDone (heap w')"
  using assms(3)
proof (cases rule: stepE_cases)
  case (unitPoll i)
  then show ?thesis using assms(2) depsDone_pollResult[of "taken i w"] by (simp add: taken_simps)
next
  case (unitBody i t)
  then show ?thesis using assms(2) by (simp add: bodyResult_simps taken_simps)
next
  case (unitDone i t)
  have "getState (heap w) t = RUNNING" using accounted_done_running[OF assms(1) unitDone(1,2)] .
  then have "depsDone (heap (doneUpdate t (taken i w)))"
    using depsDone_setDone[OF assms(2)] by (simp add: doneUpdate_simps taken_simps)
  then show ?thesis using unitDone(3) depsDone_pollResult by simp
qed

lemma running_setDone:
  "getState h t = RUNNING \<Longrightarrow>
   {t'. getState (setDone t h) t' = RUNNING} = {t'. getState h t' = RUNNING} - {t}"
  by (auto simp: getState_setDone)

lemma counted_doneUpdate:
  fixes w :: "('a::finite) world"
  assumes "counted w" "getState (heap w) t = RUNNING"
  shows "counted (doneUpdate t w)"
proof -
  let ?R = "{t'. getState (heap w) t' = RUNNING}"
  have tin: "t \<in> ?R" using assms(2) by simp
  have "card (?R - {t}) = card ?R - 1" using tin by simp
  moreover have "1 \<le> card ?R" using tin by (metis One_nat_def Suc_leI card_gt_0_iff empty_iff finite)
  ultimately have "(of_nat (card (?R - {t})) :: 32 word) = of_nat (card ?R) - 1"
    by (simp add: of_nat_diff)
  then show ?thesis using assms(1) running_setDone[OF assms(2)]
    by (simp add: counted_def doneUpdate_simps)
qed

lemma running_dispatch:
  "\<forall>t\<in>set ts. getState (heap w) t = BLOCKED \<Longrightarrow>
   {t. getState (heap (dispatch ts w)) t = RUNNING} = {t. getState (heap w) t = RUNNING} \<union> set ts"
  by (auto simp: getState_dispatch)

lemma counted_dispatch:
  fixes w :: "('a::finite) world"
  assumes "counted w" "distinct ts" "\<forall>t\<in>set ts. getState (heap w) t = BLOCKED"
  shows "counted (dispatch ts w)"
proof -
  let ?R = "{t'. getState (heap w) t' = RUNNING}"
  have "?R \<inter> set ts = {}" using assms(3) by auto
  then have "card (?R \<union> set ts) = card ?R + card (set ts)"
    by (intro card_Un_disjoint) auto
  then have "card (?R \<union> set ts) = card ?R + length ts" using assms(2) by (simp add: distinct_card)
  then show ?thesis using assms(1) running_dispatch[OF assms(3)]
    by (simp add: counted_def dispatch_simps)
qed

lemma counted_pollResult: "counted w \<Longrightarrow> counted (pollResult w)"
proof -
  assume c: "counted w"
  have "counted (Context_setDone w)" using c by (simp add: counted_def Context_setDone_simps)
  moreover have "counted (dispatch (readyList w) w)"
    using counted_dispatch[OF c readyList_distinct] readyList_blocked by blast
  ultimately show ?thesis using c by (simp add: pollResult_def)
qed

lemma counted_step:
  assumes "accounted w" "counted w" "step w w'"
  shows "counted w'"
  using assms(3)
proof (cases rule: stepE_cases)
  case (unitPoll i)
  have "counted (taken i w)" using assms(2) by (simp add: counted_def taken_simps)
  then show ?thesis using unitPoll(3) counted_pollResult by simp
next
  case (unitBody i t)
  then show ?thesis using assms(2) by (simp add: counted_def bodyResult_simps taken_simps)
next
  case (unitDone i t)
  have r: "getState (heap (taken i w)) t = RUNNING"
    using accounted_done_running[OF assms(1) unitDone(1,2)] by (simp add: taken_simps)
  have "counted (taken i w)" using assms(2) by (simp add: counted_def taken_simps)
  from counted_doneUpdate[OF this r] show ?thesis using unitDone(3) counted_pollResult by simp
qed

lemma sameShape_refl: "sameShape w w"
  by (simp add: sameShape_def)

lemma sameShape_trans: "sameShape w w' \<Longrightarrow> sameShape w' w'' \<Longrightarrow> sameShape w w''"
  by (simp add: sameShape_def)

lemma sameShape_pollResult: "sameShape w (pollResult w)"
  by (simp add: sameShape_def pollResult_def Context_setDone_simps dispatch_simps(2,4)
        getDependencies_dispatch)

lemma sameShape_step:
  assumes "step w w'"
  shows "sameShape w w'"
  using assms
proof (cases rule: stepE_cases)
  case (unitPoll i)
  have "sameShape w (taken i w)" by (simp add: sameShape_def taken_simps)
  then show ?thesis using unitPoll(3) sameShape_pollResult sameShape_trans by blast
next
  case (unitBody i t)
  then show ?thesis by (simp add: sameShape_def bodyResult_simps taken_simps)
next
  case (unitDone i t)
  have "sameShape w (doneUpdate t (taken i w))"
    by (simp add: sameShape_def taken_simps doneUpdate_simps getDependencies_setDone)
  then show ?thesis using unitDone(3) sameShape_pollResult sameShape_trans by blast
qed

lemma depends_cong:
  "(\<forall>t. getDependencies h' t = getDependencies h t) \<Longrightarrow> depends h' = depends h"
  by (simp add: depends_def)

lemma sameShape_depends: "sameShape w w' \<Longrightarrow> depends (heap w') = depends (heap w)"
  by (simp add: sameShape_def depends_cong)

lemma sameShape_graphOf:
  "sameShape w w' \<Longrightarrow> graphOf (heap w') (rootTask (ctx w')) = graphOf (heap w) (rootTask (ctx w))"
  by (simp add: graphOf_def sameShape_depends) (simp add: sameShape_def)

lemma done_pollResult:
  "getState (heap w) t = DONE \<Longrightarrow> getState (heap (pollResult w)) t = DONE"
  using readyList_blocked[of t w]
  by (auto simp: pollResult_def Context_setDone_simps getState_dispatch)

lemma doneOnce_pollResult: "doneOnce w \<Longrightarrow> doneOnce (pollResult w)"
  by (simp add: doneOnce_def pollResult_def Context_done_def Context_setDone_simps
        dispatch_simps(4,6) getState_dispatch)

lemma doneOnce_step:
  assumes "doneOnce w" "step w w'"
  shows "doneOnce w'"
  using assms(2)
proof (cases rule: stepE_cases)
  case (unitPoll i)
  have "doneOnce (taken i w)" using assms(1) by (simp add: doneOnce_def taken_simps)
  then show ?thesis using unitPoll(3) doneOnce_pollResult by simp
next
  case (unitBody i t)
  then show ?thesis using assms(1) by (simp add: doneOnce_def bodyResult_simps taken_simps)
next
  case (unitDone i t)
  have "doneOnce (doneUpdate t (taken i w))"
    using assms(1) by (simp add: doneOnce_def taken_simps doneUpdate_simps getState_setDone)
  then show ?thesis using unitDone(3) doneOnce_pollResult by simp
qed

lemma inGraph_pollResult:
  assumes "inGraph w"
  shows "inGraph (pollResult w)"
proof -
  have g: "graphOf (heap (pollResult w)) (rootTask (ctx (pollResult w))) = graphOf (heap w) (rootTask (ctx w))"
    by (rule sameShape_graphOf[OF sameShape_pollResult])
  have "t \<in> graphOf (heap w) (rootTask (ctx w))" if "getState (heap (pollResult w)) t \<noteq> BLOCKED" for t
  proof (cases "getState (heap w) t = BLOCKED")
    case False
    then show ?thesis using assms by (simp add: inGraph_def)
  next
    case True
    then have "t \<in> set (readyList w)"
      using that by (auto simp: pollResult_def Context_setDone_simps getState_dispatch split: if_splits)
    then show ?thesis by (simp add: readyList_def readyTasks_graphOf)
  qed
  then show ?thesis unfolding inGraph_def g by blast
qed

lemma inGraph_step:
  assumes "accounted w" "inGraph w" "step w w'"
  shows "inGraph w'"
  using assms(3)
proof (cases rule: stepE_cases)
  case (unitPoll i)
  have "inGraph (taken i w)" using assms(2) by (simp add: inGraph_def taken_simps)
  then show ?thesis using unitPoll(3) inGraph_pollResult by simp
next
  case (unitBody i t)
  then show ?thesis using assms(2) by (simp add: inGraph_def bodyResult_simps taken_simps)
next
  case (unitDone i t)
  have r: "getState (heap w) t = RUNNING" using accounted_done_running[OF assms(1) unitDone(1,2)] .
  have "sameShape w (doneUpdate t (taken i w))"
    by (simp add: sameShape_def taken_simps doneUpdate_simps getDependencies_setDone)
  from sameShape_graphOf[OF this] have "inGraph (doneUpdate t (taken i w))"
    using assms(2) r unfolding inGraph_def
    by (auto simp: doneUpdate_simps(1) taken_simps(1) getState_setDone split: if_splits)
  then show ?thesis using unitDone(3) inGraph_pollResult by simp
qed

lemma home_cong:
  "executor (runner w') = executor (runner w) \<Longrightarrow>
   contextExecutor (ctx w') = contextExecutor (ctx w) \<Longrightarrow> home w' u = home w u"
  by (cases u) simp_all

lemma tagged_pollResult: "tagged w \<Longrightarrow> tagged (pollResult w)"
proof -
  assume t: "tagged w"
  have 1: "home (Context_setDone w) u = home w u" for u
    by (rule home_cong) (simp_all add: Context_setDone_simps)
  have 2: "home (dispatch ts w) u = home w u" for u ts
    by (rule home_cong) (simp_all add: dispatch_simps)
  have "tagged (Context_setDone w)" using t by (simp add: tagged_def 1 Context_setDone_simps)
  moreover have "tagged (dispatch ts w)" for ts
    using t by (auto simp: tagged_def 2 dispatch_simps(5))
  ultimately show ?thesis using t by (simp add: pollResult_def)
qed

lemma tagged_taken: "tagged w \<Longrightarrow> tagged (taken i w)"
proof -
  have "home (taken i w) u = home w u" for u
    by (rule home_cong) (simp_all add: taken_simps)
  then show "tagged w \<Longrightarrow> tagged (taken i w)"
    using set_removeAt[of i "pending w"] by (auto simp: tagged_def taken_simps)
qed

lemma tagged_step:
  assumes "tagged w" "step w w'"
  shows "tagged w'"
  using assms(2)
proof (cases rule: stepE_cases)
  case (unitPoll i)
  then show ?thesis using tagged_pollResult[OF tagged_taken[OF assms(1)]] by simp
next
  case (unitBody i t)
  have "home (bodyResult t (taken i w)) u = home (taken i w) u" for u
    by (rule home_cong) (simp_all add: bodyResult_simps)
  then show ?thesis using tagged_taken[OF assms(1), of i] unitBody(3)
    by (auto simp: tagged_def bodyResult_simps(4))
next
  case (unitDone i t)
  have "home (doneUpdate t (taken i w)) u = home (taken i w) u" for u
    by (rule home_cong) (simp_all add: doneUpdate_simps)
  then have "tagged (doneUpdate t (taken i w))"
    using tagged_taken[OF assms(1), of i] by (simp add: tagged_def doneUpdate_simps(5))
  then show ?thesis using unitDone(3) tagged_pollResult by simp
qed

lemma live_pollResult:
  fixes w :: "('a::finite) world"
  assumes ac: "acyclic (depends (heap w))"
  shows "doneFlag (ctx (pollResult w)) \<or> (\<exists>t. getState (heap (pollResult w)) t = RUNNING)"
proof (cases "Context_done w")
  case True
  then show ?thesis by (simp add: pollResult_def Context_done_def)
next
  case nd: False
  show ?thesis
  proof (cases "getState (heap w) (rootTask (ctx w))")
    case DONE
    then show ?thesis using nd by (simp add: pollResult_def Context_setDone_simps)
  next
    case RUNNING
    then have "getState (heap (pollResult w)) (rootTask (ctx w)) = RUNNING"
      using nd by (simp add: pollResult_def getState_dispatch)
    then show ?thesis by blast
  next
    case BLOCKED
    from poll_progress[OF ac BLOCKED] show ?thesis
    proof
      assume "\<exists>t. getState (heap w) t = RUNNING"
      then obtain t where "getState (heap w) t = RUNNING" ..
      then have "getState (heap (pollResult w)) t = RUNNING"
        using nd BLOCKED by (simp add: pollResult_def getState_dispatch)
      then show ?thesis by blast
    next
      assume "fst (getReadyTasks (heap w) (rootTask (ctx w)) ([], {})) \<noteq> []"
      then obtain t where "t \<in> set (readyList w)"
        unfolding readyList_def by (meson last_in_set)
      then have "getState (heap (pollResult w)) t = RUNNING"
        using nd BLOCKED by (simp add: pollResult_def getState_dispatch)
      then show ?thesis by blast
    qed
  qed
qed

lemma live_step:
  fixes w :: "('a::finite) world"
  assumes ac: "acyclic (depends (heap w))" and l: "live w" and s: "step w w'"
  shows "live w'"
  using s
proof (cases rule: stepE_cases)
  case (unitPoll i)
  have "acyclic (depends (heap (taken i w)))" using ac by (simp add: taken_simps)
  from live_pollResult[OF this] show ?thesis using unitPoll(3) by (auto simp: live_def)
next
  case (unitBody i t)
  have "p \<in> set (removeAt i (pending w))" if "p \<in> set (pending w)" "snd p = PollTask" for p
  proof -
    have "p \<noteq> pending w ! i" using that(2) unitBody(2) by auto
    then show ?thesis using set_removeAt_other[OF unitBody(1) that(1)] by simp
  qed
  then show ?thesis using l unitBody(3)
    unfolding live_def by (auto simp: bodyResult_simps taken_simps)
next
  case (unitDone i t)
  have "acyclic (depends (heap (doneUpdate t (taken i w))))"
    using ac by (simp add: depends_def doneUpdate_simps taken_simps getDependencies_setDone)
  from live_pollResult[OF this] show ?thesis using unitDone(3) by (auto simp: live_def)
qed

lemma removeAt_sum_list:
  "i < length xs \<Longrightarrow> sum_list (map f (removeAt i xs)) + f (xs ! i) = (sum_list (map f xs) :: nat)"
proof -
  assume i: "i < length xs"
  have "xs = take i xs @ xs ! i # drop (Suc i) xs" using i by (simp add: id_take_nth_drop)
  then have "sum_list (map f xs) = sum_list (map f (take i xs @ xs ! i # drop (Suc i) xs))" by simp
  then show ?thesis by (simp add: removeAt_def)
qed

lemma load_taken:
  "i < length (pending w) \<Longrightarrow> load (taken i w) + weight (snd (pending w ! i)) = load w"
  using removeAt_sum_list[of i "pending w" "\<lambda>p. weight (snd p)"]
  by (simp add: load_def taken_simps)

lemma load_bodyResult: "load (bodyResult t w) = load w + 1"
  by (simp add: load_def bodyResult_simps)

lemma load_doneUpdate: "load (doneUpdate t w) \<le> load w"
proof -
  have "{t'. getState (setDone t (heap w)) t' = BLOCKED} \<subseteq> {t'. getState (heap w) t' = BLOCKED}"
    by (auto simp: getState_setDone split: if_splits)
  then have "card {t'. getState (setDone t (heap w)) t' = BLOCKED} \<le> card {t'. getState (heap w) t' = BLOCKED}"
    by (intro card_mono) auto
  then show ?thesis by (simp add: load_def doneUpdate_simps)
qed

lemma load_dispatch:
  fixes w :: "('a::finite) world"
  assumes "distinct ts" "\<forall>t\<in>set ts. getState (heap w) t = BLOCKED"
  shows "load (dispatch ts w) + length ts = load w"
proof -
  let ?B = "{t. getState (heap w) t = BLOCKED}"
  have sub: "set ts \<subseteq> ?B" using assms(2) by auto
  have "{t. getState (heap (dispatch ts w)) t = BLOCKED} = ?B - set ts"
    by (auto simp: getState_dispatch)
  moreover have "card (?B - set ts) + length ts = card ?B"
    using sub assms(1) by (metis add.commute card_Diff_subset card_mono distinct_card finite
        le_add_diff_inverse finite_set)
  moreover have "sum_list (map (\<lambda>p. weight (snd p)) (map (\<lambda>t. (executor (runner w), TaskBody t)) ts)) = 2 * length ts"
    by (induction ts) auto
  ultimately show ?thesis by (simp add: load_def dispatch_simps(5))
qed

lemma load_pollResult: "load (pollResult w) \<le> load w"
proof -
  have "load (Context_setDone w) = load w" by (simp add: load_def Context_setDone_simps)
  moreover have "load (dispatch (readyList w) w) \<le> load w"
    using load_dispatch[OF readyList_distinct, of w] readyList_blocked[of _ w] by fastforce
  ultimately show ?thesis by (simp add: pollResult_def)
qed

lemma load_step: "step w w' \<Longrightarrow> load w' < load w"
proof (erule stepE_cases)
  fix i assume "i < length (pending w)" "snd (pending w ! i) = PollTask" "w' = pollResult (taken i w)"
  then show ?thesis using load_taken[of i w] load_pollResult[of "taken i w"] by simp
next
  fix i t assume "i < length (pending w)" "snd (pending w ! i) = TaskBody t" "w' = bodyResult t (taken i w)"
  then show ?thesis using load_taken[of i w] load_bodyResult[of t "taken i w"] by simp
next
  fix i t assume "i < length (pending w)" "snd (pending w ! i) = SetTaskDone t"
    "w' = pollResult (doneUpdate t (taken i w))"
  then show ?thesis
    using load_taken[of i w] load_doneUpdate[of t "taken i w"] load_pollResult[of "doneUpdate t (taken i w)"]
    by simp
qed

lemma wf_step: "wf {(w', w :: ('a::finite) world). step w w'}"
proof (rule wf_subset)
  show "wf (measure load)" by simp
  show "{(w', w :: 'a world). step w w'} \<subseteq> measure load" by (auto simp: load_step)
qed

lemma schedulerInv_step:
  assumes "schedulerInv w" "step w w'"
  shows "schedulerInv w'"
proof -
  have a: "accounted w" "depsDone (heap w)" "counted w" "doneOnce w" "inGraph w" "tagged w"
    using assms(1) by (simp_all add: schedulerInv_def)
  show ?thesis
    unfolding schedulerInv_def
    using accounted_step[OF a(1) assms(2)] depsDone_step[OF a(1,2) assms(2)]
      counted_step[OF a(1,3) assms(2)] doneOnce_step[OF a(4) assms(2)]
      inGraph_step[OF a(1,5) assms(2)] tagged_step[OF a(6) assms(2)]
    by (intro conjI)
qed

lemma schedulerInv_reaches: "reaches w w' \<Longrightarrow> schedulerInv w \<Longrightarrow> schedulerInv w'"
  by (induction rule: reaches.induct) (auto intro: schedulerInv_step)

lemma sameShape_reaches: "reaches w w' \<Longrightarrow> sameShape w w'"
  by (induction rule: reaches.induct) (auto intro: sameShape_refl sameShape_trans sameShape_step)

lemma live_reaches:
  "reaches w w' \<Longrightarrow> acyclic (depends (heap w)) \<Longrightarrow> live w \<Longrightarrow> live w'"
proof (induction rule: reaches.induct)
  case (reaches_refl w)
  then show ?case by simp
next
  case (reaches_step w w' w'')
  have "acyclic (depends (heap w'))"
    using sameShape_depends[OF sameShape_reaches[OF reaches_step(1)]] reaches_step(4) by simp
  then show ?case using reaches_step live_step by blast
qed

lemma runTask_simps:
  "heap (runTask r h root e) = h" "runner (runTask r h root e) = r"
  "rootTask (ctx (runTask r h root e)) = root" "contextExecutor (ctx (runTask r h root e)) = e"
  "doneFlag (ctx (runTask r h root e)) = False"
  "pending (runTask r h root e) = [(e, PollTask)]" "doneCalls (runTask r h root e) = 0"
  "runLog (runTask r h root e) = []"
  by (simp_all add: runTask_def Context_execute_def Executor_execute_def)

lemma schedulerInv_runTask:
  assumes "\<forall>t. getState h t = BLOCKED"
  shows "schedulerInv (runTask (TaskRunner_new ex) h root e)"
  using assms
  by (simp add: schedulerInv_def accounted_def cntBody_def cntDone_def depsDone_def counted_def
        doneOnce_def inGraph_def tagged_def runTask_simps TaskRunner_new_def)

lemma live_runTask: "live (runTask r h root e)"
  by (simp add: live_def runTask_simps)

lemma graph_done:
  assumes "depsDone h" "getState h root = DONE" "t \<in> graphOf h root"
  shows "getState h t = DONE"
proof -
  from assms(3) have "(t, root) \<in> (depends h)\<^sup>*" by (simp add: graphOf_def)
  then show ?thesis
  proof (induction rule: converse_rtrancl_induct)
    case base
    then show ?case by (rule assms(2))
  next
    case (step y z)
    then have "y \<in> set (getDependencies h z)" by (simp add: depends_def)
    then show ?case using depsDoneD[OF assms(1), of z y] step.IH by simp
  qed
qed

lemma no_pending_no_running:
  assumes "accounted w" "pending w = []"
  shows "getState (heap w) t \<noteq> RUNNING"
  using accountedD(1)[OF assms(1), of t] assms(2) by (auto simp: cntBody_def cntDone_def)

lemma quiescent_done:
  assumes "schedulerInv w" "live w" "pending w = []"
  shows "doneFlag (ctx w) \<and> doneCalls w = 1 \<and>
         (\<forall>t\<in>graphOf (heap w) (rootTask (ctx w)). getState (heap w) t = DONE)"
proof -
  have a: "accounted w" "depsDone (heap w)" "doneOnce w" using assms(1) by (simp_all add: schedulerInv_def)
  have f: "doneFlag (ctx w)"
    using assms(2,3) no_pending_no_running[OF a(1) assms(3)] by (auto simp: live_def)
  then have "doneCalls w = 1" "getState (heap w) (rootTask (ctx w)) = DONE"
    using a(3) by (simp_all add: doneOnce_def)
  then show ?thesis using f graph_done[OF a(2)] by blast
qed

lemma done_flag_all_done:
  assumes "schedulerInv w" "doneFlag (ctx w)"
  shows "getState (heap w) t = (if t \<in> graphOf (heap w) (rootTask (ctx w)) then DONE else BLOCKED)"
proof -
  have a: "depsDone (heap w)" "doneOnce w" "inGraph w" using assms(1) by (simp_all add: schedulerInv_def)
  have "getState (heap w) (rootTask (ctx w)) = DONE" using a(2) assms(2) by (simp add: doneOnce_def)
  from graph_done[OF a(1) this] show ?thesis using a(3) by (auto simp: inGraph_def)
qed

lemma reaches_trans: "reaches b c \<Longrightarrow> reaches a b \<Longrightarrow> reaches a c"
  by (induction rule: reaches.induct) (auto intro: reaches_step)

lemma step_reaches: "step w w1 \<Longrightarrow> reaches w1 w' \<Longrightarrow> reaches w w'"
  using reaches_trans[of w1 w' w] reaches_step[OF reaches_refl, of w w1] by blast

lemma runSchedule_reaches: "runSchedule sched w = Some w' \<Longrightarrow> reaches w w'"
proof (induction sched arbitrary: w)
  case Nil
  then show ?case by (simp add: reaches_refl)
next
  case (Cons i sched)
  from Cons.prems obtain w1 where 1: "i < length (pending w)" "executeUnit i w = Inr w1"
    "runSchedule sched w1 = Some w'"
    by (auto split: if_splits sum.splits)
  have "step w w1" using 1(1,2) by (rule stepI)
  then show ?case using Cons.IH[OF 1(3)] step_reaches by blast
qed

lemma exists_quiescent:
  fixes w :: "('a::finite) world"
  shows "\<exists>w'. reaches w w' \<and> pending w' = []"
proof (induction w rule: wf_induct_rule[OF wf_step])
  case (1 w)
  show ?case
  proof (cases "pending w = []")
    case True
    then show ?thesis using reaches_refl by blast
  next
    case False
    then have "0 < length (pending w)" by simp
    then have s: "step w (unitResult (snd (pending w ! 0)) (taken 0 w))"
      by (auto simp: step_iff)
    from 1[of "unitResult (snd (pending w ! 0)) (taken 0 w)"] s obtain w' where
      "reaches (unitResult (snd (pending w ! 0)) (taken 0 w)) w'" "pending w' = []" by auto
    then show ?thesis using step_reaches[OF s] by blast
  qed
qed

lemma acyclic_rank:
  fixes rank :: "'a \<Rightarrow> nat"
  assumes "\<And>t d. d \<in> set (getDependencies h t) \<Longrightarrow> rank d < rank t"
  shows "acyclic (depends h)"
proof -
  have "depends h \<subseteq> measure rank" using assms by (auto simp: depends_def)
  moreover have "acyclic (measure rank)" by (simp add: wf_acyclic)
  ultimately show ?thesis by (rule acyclic_subset[rotated])
qed

lemma diamond_acyclic: "acyclic (depends diamond)"
proof (rule acyclic_rank[where rank = diamondRank])
  fix t d assume "d \<in> set (getDependencies diamond t)"
  then show "diamondRank d < diamondRank t"
    by (cases t) (auto simp: getDependencies_def diamond_def)
qed

lemma diamond_blocked: "getState diamond t = BLOCKED"
  by (simp add: getState_def diamond_def)

lemma diamond_graph: "graphOf diamond NA = UNIV"
proof -
  have d: "(ND, NB) \<in> depends diamond" "(NB, NA) \<in> depends diamond" "(NC, NA) \<in> depends diamond"
    by (simp_all add: depends_def getDependencies_def diamond_def)
  have "t \<in> graphOf diamond NA" for t
    unfolding graphOf_def using d by (cases t) (auto intro: rtrancl_trans)
  then show ?thesis by blast
qed

lemma reaches_runTask_inv:
  assumes "\<forall>t. getState h t = BLOCKED" "reaches (runTask (TaskRunner_new ex) h root e) w"
  shows "schedulerInv w"
  using schedulerInv_reaches[OF assms(2) schedulerInv_runTask[OF assms(1)]] .

lemma reaches_runTask_shape:
  assumes "reaches (runTask r h root e) w"
  shows "graphOf (heap w) (rootTask (ctx w)) = graphOf h root" "depends (heap w) = depends h"
    "executor (runner w) = executor r" "contextExecutor (ctx w) = e"
    "getDependencies (heap w) t = getDependencies h t" "rootTask (ctx w) = root"
  using sameShape_graphOf[OF sameShape_reaches[OF assms]] sameShape_depends[OF sameShape_reaches[OF assms]]
    sameShape_reaches[OF assms]
  by (simp_all add: runTask_simps sameShape_def)

lemma reaches_runTask_live:
  assumes "acyclic (depends h)" "reaches (runTask r h root e) w"
  shows "live w"
proof (rule live_reaches[OF assms(2) _ live_runTask])
  show "acyclic (depends (heap (runTask r h root e)))" using assms(1) by (simp add: runTask_simps)
qed

lemma doneCalls_le_1: "doneOnce w \<Longrightarrow> doneCalls w \<le> 1"
  by (simp add: doneOnce_def)

lemma diamondRun_Some: "diamondRun \<noteq> None"
  by code_simp

lemma diamondRun_pending: "pending (the diamondRun) = []"
  by code_simp

lemma diamondRun_reaches: "reaches (runTask (TaskRunner_new 0) diamond NA 1) (the diamondRun)"
  using diamondRun_Some runSchedule_reaches[of "[0, 0, 0, 0, 1, 0, 0, 0, 0]" "runTask (TaskRunner_new 0) diamond NA 1"]
  by (auto simp: diamondRun_def)

lemma forDeps_append:
  "forDeps h (ds1 @ ds2) acc = forDeps h ds2 (forDeps h ds1 acc)"
proof (induction ds1 arbitrary: acc)
  case Nil
  then show ?case by simp
next
  case (Cons d ds1)
  obtain r rt ch where acc: "acc = (r, rt, ch)" by (cases acc) auto
  show ?case unfolding acc by (cases "getState h d") (simp_all add: Cons.IH)
qed

lemma forDeps_flag_irrelevant:
  "snd (forDeps h ds (r, rc)) = snd (forDeps h ds (r', rc))"
  by (cases rc) (simp add: forDeps_fold)

lemma forDeps_flag_False: "fst (forDeps h ds (False, rc)) = False"
  by (cases rc) (simp add: forDeps_fold)

lemma ready_dep_discovered:
  assumes "getState h task = BLOCKED" "task \<notin> checked"
    and "d \<in> set (getDependencies h task)" "isReady h d"
  shows "d \<in> checked \<or> d \<in> set (fst (getReadyTasks h task (readyTasks, checked)))"
proof (cases "d \<in> checked")
  case True
  then show ?thesis by simp
next
  case False
  let ?res = "getReadyTasks h task (readyTasks, checked)"
  have v: "visits h {task} (readyTasks, checked) ?res" by (rule visits_getReadyTasks_forDeps(1))
  have db: "getState h d = BLOCKED" using assms(4) by (simp add: isReady_def)
  have "task \<in> snd ?res" using visits_roots[OF v, of task] assms(1) by simp
  then have "d \<in> snd ?res" using visits_closed[OF v, of task d] assms(2,3) db by simp
  moreover from visits_new[OF v] obtain new where
    "fst ?res = readyTasks @ new" "set new = {v \<in> snd ?res - checked. isReady h v}" by auto
  ultimately show ?thesis using False assms(4) by auto
qed

lemma pollResult_newly_running:
  assumes "getState (heap (pollResult w)) t = RUNNING" "getState (heap w) t \<noteq> RUNNING"
  shows "isReady (heap w) t"
proof -
  have "t \<in> set (readyList w)"
    using assms by (auto simp: pollResult_def Context_setDone_simps getState_dispatch split: if_splits)
  then show ?thesis by (rule readyList_isReady)
qed

lemma diamondMid_Some: "diamondMid \<noteq> None"
  by code_simp

lemma diamondMid_reaches: "reaches (runTask (TaskRunner_new 0) diamond NA 1) (the diamondMid)"
  using diamondMid_Some runSchedule_reaches[of "[0, 0, 0]" "runTask (TaskRunner_new 0) diamond NA 1"]
  by (auto simp: diamondMid_def)

lemma diamondMid_states:
  "getState (heap (the diamondMid)) NA = BLOCKED" "getState (heap (the diamondMid)) NB = RUNNING"
  "getState (heap (the diamondMid)) NC = RUNNING" "getState (heap (the diamondMid)) ND = DONE"
  by code_simp+

lemma diamondMid_deps: "getDependencies (heap (the diamondMid)) t = diamondDeps t"
  using reaches_runTask_shape(5)[OF diamondMid_reaches, of t]
  by (simp add: getDependencies_def diamond_def)

lemma pollResult_monotone:
  "getState (heap (pollResult w)) t = getState (heap w) t \<or>
   getState (heap w) t = BLOCKED \<and> getState (heap (pollResult w)) t = RUNNING"
  using readyList_blocked[of t w]
  by (auto simp: pollResult_def Context_setDone_simps getState_dispatch)

lemma step_monotone:
  assumes "accounted w" "step w w'"
  shows "getState (heap w') t = getState (heap w) t \<or>
         getState (heap w) t = BLOCKED \<and> getState (heap w') t = RUNNING \<or>
         getState (heap w) t = RUNNING \<and> getState (heap w') t = DONE"
  using assms(2)
proof (cases rule: stepE_cases)
  case (unitPoll i)
  then show ?thesis using pollResult_monotone[of "taken i w" t] by (auto simp: taken_simps)
next
  case (unitBody i t')
  then show ?thesis by (simp add: bodyResult_simps taken_simps)
next
  case (unitDone i t')
  have r: "getState (heap w) t' = RUNNING" using accounted_done_running[OF assms(1) unitDone(1,2)] .
  show ?thesis
    using pollResult_monotone[of "doneUpdate t' (taken i w)" t] r unitDone(3)
    by (auto simp: doneUpdate_simps taken_simps getState_setDone split: if_splits)
qed

lemma diamondRun_states:
  "getState (heap (the diamondRun)) ND = DONE"
  by code_simp

lemma diamondMid_step:
  "step (the diamondMid) (unitResult (snd (pending (the diamondMid) ! 0)) (taken 0 (the diamondMid)))"
proof -
  have "0 < length (pending (the diamondMid))" by code_simp
  then show ?thesis unfolding step_iff by blast
qed

lemma diamondMid_next:
  "getState (heap (unitResult (snd (pending (the diamondMid) ! 0)) (taken 0 (the diamondMid)))) NB = RUNNING"
  by code_simp

lemma counted_unat:
  fixes w :: "('a::finite) world"
  assumes "counted w" "card (UNIV :: 'a set) < 2 ^ 32"
  shows "unat (runningTasks (runner w)) = card {t. getState (heap w) t = RUNNING}"
proof -
  have "card {t. getState (heap w) t = RUNNING} \<le> card (UNIV :: 'a set)"
    by (intro card_mono) auto
  then have "card {t. getState (heap w) t = RUNNING} < 2 ^ LENGTH(32)" using assms(2) by simp
  then show ?thesis using assms(1) by (simp add: counted_def unat_of_nat)
qed

lemma done_flag_no_running:
  fixes w :: "('a::finite) world"
  assumes "schedulerInv w" "doneFlag (ctx w)"
  shows "runningTasks (runner w) = 0"
proof -
  have "{t. getState (heap w) t = RUNNING} = {}"
    using done_flag_all_done[OF assms] by auto
  moreover have "counted w" using assms(1) by (simp add: schedulerInv_def)
  ultimately show ?thesis by (simp add: counted_def)
qed

lemma quiescent_no_running:
  fixes w :: "('a::finite) world"
  assumes "schedulerInv w" "pending w = []"
  shows "runningTasks (runner w) = 0"
proof -
  have a: "accounted w" "counted w" using assms(1) by (simp_all add: schedulerInv_def)
  have "{t. getState (heap w) t = RUNNING} = {}"
    using no_pending_no_running[OF a(1) assms(2)] by auto
  then show ?thesis using a(2) by (simp add: counted_def)
qed

lemma node_UNIV: "(UNIV :: node set) = {NA, NB, NC, ND}"
  using node.exhaust by auto

lemma node_card: "card (UNIV :: node set) = 4"
  by (simp add: node_UNIV)

lemma stuck_not_ready:
  assumes "stuck h C" "t \<in> C"
  shows "\<not> isReady h t"
proof -
  from assms obtain d where d: "d \<in> set (getDependencies h t)" "d \<in> C"
    unfolding stuck_def by blast
  then have b: "getState h d = BLOCKED" using assms(1) unfolding stuck_def by blast
  show ?thesis
  proof
    assume "isReady h t"
    then have "getState h d = DONE" using d(1) by (simp add: isReady_def)
    with b show False by simp
  qed
qed

lemma stuck_pollResult:
  assumes "stuck (heap w) C"
  shows "stuck (heap (pollResult w)) C"
proof -
  have "t \<notin> set (readyList w)" if "t \<in> C" for t
    using stuck_not_ready[OF assms that] readyList_isReady by blast
  then have "getState (heap (pollResult w)) t = getState (heap w) t" if "t \<in> C" for t
    using that by (simp add: pollResult_def Context_setDone_simps getState_dispatch)
  moreover have "getDependencies (heap (pollResult w)) t = getDependencies (heap w) t" for t
    using sameShape_pollResult[of w] by (simp add: sameShape_def)
  ultimately show ?thesis using assms by (simp add: stuck_def)
qed

lemma stuck_step:
  assumes "accounted w" "stuck (heap w) C" "step w w'"
  shows "stuck (heap w') C"
  using assms(3)
proof (cases rule: stepE_cases)
  case (unitPoll i)
  have "stuck (heap (taken i w)) C" using assms(2) by (simp add: taken_simps)
  then show ?thesis using unitPoll(3) stuck_pollResult by blast
next
  case (unitBody i t)
  then show ?thesis using assms(2) by (simp add: bodyResult_simps taken_simps)
next
  case (unitDone i t)
  have r: "getState (heap w) t = RUNNING" using accounted_done_running[OF assms(1) unitDone(1,2)] .
  then have "t \<notin> C" using assms(2) by (auto simp: stuck_def)
  then have "stuck (heap (doneUpdate t (taken i w))) C"
    using assms(2)
    by (auto simp: stuck_def doneUpdate_simps taken_simps getState_setDone getDependencies_setDone)
  then show ?thesis using unitDone(3) stuck_pollResult by blast
qed

lemma stuck_reaches:
  "reaches w w' \<Longrightarrow> accounted w \<Longrightarrow> stuck (heap w) C \<Longrightarrow> accounted w' \<and> stuck (heap w') C"
  by (induction rule: reaches.induct) (auto intro: accounted_step stuck_step)

lemma cycle_stuck:
  assumes t: "(t, t) \<in> (depends h)\<^sup>+"
    and bl: "\<forall>c. (t, c) \<in> (depends h)\<^sup>+ \<and> (c, t) \<in> (depends h)\<^sup>+ \<longrightarrow> getState h c = BLOCKED"
  shows "stuck h {c. (t, c) \<in> (depends h)\<^sup>+ \<and> (c, t) \<in> (depends h)\<^sup>+}"
  unfolding stuck_def
proof (intro ballI conjI)
  fix c assume "c \<in> {c. (t, c) \<in> (depends h)\<^sup>+ \<and> (c, t) \<in> (depends h)\<^sup>+}"
  then have c: "(t, c) \<in> (depends h)\<^sup>+" "(c, t) \<in> (depends h)\<^sup>+" by auto
  show "getState h c = BLOCKED" using bl c by blast
  from c(1) obtain d where d: "(t, d) \<in> (depends h)\<^sup>*" "(d, c) \<in> depends h"
    by (meson tranclD2)
  have 1: "(d, t) \<in> (depends h)\<^sup>+" using d(2) c(2) by (meson trancl_into_trancl2)
  have 2: "(t, d) \<in> (depends h)\<^sup>+"
    using d(1) t 1 by (metis rtranclD)
  have "d \<in> set (getDependencies h c)" using d(2) by (simp add: depends_def)
  then show "\<exists>d\<in>set (getDependencies h c). d \<in> {c. (t, c) \<in> (depends h)\<^sup>+ \<and> (c, t) \<in> (depends h)\<^sup>+}"
    using 1 2 by blast
qed

lemma cyclicRun_Some: "cyclicRun \<noteq> None"
  by code_simp

lemma cyclicRun_reaches: "reaches (runTask (TaskRunner_new 0) cyclic NA 1) (the cyclicRun)"
  using cyclicRun_Some runSchedule_reaches[of "[0, 0, 0]" "runTask (TaskRunner_new 0) cyclic NA 1"]
  by (auto simp: cyclicRun_def)

lemma cyclic_cycle: "(NA, NA) \<in> (depends cyclic)\<^sup>+"
proof -
  have "(NA, NB) \<in> depends cyclic" "(NB, NA) \<in> depends cyclic"
    by (simp_all add: depends_def getDependencies_def cyclic_def)
  then show ?thesis by (meson trancl.simps)
qed

lemma cyclicMid_Some: "cyclicMid \<noteq> None"
  by code_simp

lemma cyclicMid_pending: "pending (the cyclicMid) = [(0, TaskBody NC)]"
  by code_simp

lemma cyclicMid_reaches: "reaches (runTask (TaskRunner_new 0) cyclic NA 1) (the cyclicMid)"
  using cyclicMid_Some runSchedule_reaches[of "[0]" "runTask (TaskRunner_new 0) cyclic NA 1"]
  by (auto simp: cyclicMid_def)

lemma singleFirst_eval:
  "singleFirst \<noteq> None" "getState (heap (the singleFirst)) ND = RUNNING"
  "doneCalls (the singleFirst) = 0" "\<not> doneFlag (ctx (the singleFirst))"
  "pending (the singleFirst) = [(0, TaskBody ND)]"
  by code_simp+

lemma getReadyTasks_no_deps:
  assumes "getState h root = BLOCKED" "getDependencies h root = []"
  shows "getReadyTasks h root ([], {}) = ([root], {root})"
  using assms by (simp add: getReadyTasks.simps)

lemma tagged_lookup:
  assumes "tagged w" "p \<in> set (pending w)"
  shows "fst p = home w (snd p)"
  using assms by (simp add: tagged_def)

lemma doneCalls_changes_on_control:
  assumes "tagged w" "i < length (pending w)"
    "doneCalls (unitResult (snd (pending w ! i)) (taken i w)) \<noteq> doneCalls w"
  shows "fst (pending w ! i) = contextExecutor (ctx w)"
proof -
  have p: "pending w ! i \<in> set (pending w)" using assms(2) by simp
  show ?thesis
  proof (cases "snd (pending w ! i)")
    case PollTask
    then show ?thesis using tagged_lookup[OF assms(1) p] by simp
  next
    case (TaskBody t)
    then show ?thesis using assms(3) by (simp add: bodyResult_simps taken_simps)
  next
    case (SetTaskDone t)
    then show ?thesis using tagged_lookup[OF assms(1) p] by simp
  qed
qed

lemma diamondMid_pending: "pending (the diamondMid) = [(0, TaskBody NB), (0, TaskBody NC)]"
  by code_simp

lemma diamondLast_Some: "diamondLast \<noteq> None"
  by code_simp

lemma diamondLast_eval:
  "pending (the diamondLast) = [(1, SetTaskDone NA)]" "doneCalls (the diamondLast) = 0"
  "doneCalls (unitResult (SetTaskDone NA) (taken 0 (the diamondLast))) = 1"
  by code_simp+

lemma diamondLast_reaches: "reaches (runTask (TaskRunner_new 0) diamond NA 1) (the diamondLast)"
  using diamondLast_Some
    runSchedule_reaches[of "[0, 0, 0, 0, 1, 0, 0, 0]" "runTask (TaskRunner_new 0) diamond NA 1"]
  by (auto simp: diamondLast_def)

lemma visits_chain:
  assumes v: "visits h R rc rc'"
    and r: "r \<in> R" "getState h r = BLOCKED" "r \<notin> snd rc"
    and c: "(x, r) \<in> (unvisitedBlocked h (snd rc))\<^sup>*"
  shows "x \<in> snd rc' \<and> x \<notin> snd rc"
  using c
proof (induction rule: converse_rtrancl_induct)
  case base
  show ?case using visits_roots[OF v r(1,2)] r(3) by simp
next
  case (step y z)
  from step.hyps(1) have y: "y \<in> set (getDependencies h z)" "getState h y = BLOCKED" "y \<notin> snd rc"
    by (simp_all add: unvisitedBlocked_def)
  from step.IH have "z \<in> snd rc'" "z \<notin> snd rc" by simp_all
  from visits_closed[OF v this y(1,2)] show ?case using y(3) by simp
qed

lemma visits_ready_chain:
  assumes v: "visits h R rc rc'"
    and r: "r \<in> R" "getState h r = BLOCKED" "r \<notin> snd rc"
    and c: "(x, r) \<in> (unvisitedBlocked h (snd rc))\<^sup>*"
    and x: "isReady h x"
  shows "x \<in> set (fst rc')"
proof -
  from visits_chain[OF v r c] have "x \<in> snd rc' - snd rc" by simp
  moreover from visits_new[OF v] obtain new where
    "fst rc' = fst rc @ new" "set new = {v \<in> snd rc' - snd rc. isReady h v}" by blast
  ultimately show ?thesis using x by auto
qed

lemma deepHeap_states:
  "getState deepHeap NA = BLOCKED" "getState deepHeap NB = RUNNING"
  "getState deepHeap NC = BLOCKED" "getState deepHeap ND = BLOCKED"
  "getDependencies deepHeap NA = [NB, NC]" "getDependencies deepHeap NC = [ND]"
  "getDependencies deepHeap ND = []"
  by (simp_all add: deepHeap_def getState_def getDependencies_def)

lemma deepHeap_eval:
  "getReadyTasks deepHeap NA ([], {}) = ([ND], {NA, NC, ND})"
  "forDeps deepHeap [NB, NC] (True, [], {NA}) = (False, [ND], {NA, NC, ND})"
  by (simp_all add: getReadyTasks.simps deepHeap_states insert_commute)

section \<open>The claims\<close>

text \<open>
  Claim C1.  For every finite acyclic task graph whose tasks all start \<open>BLOCKED\<close>, running the
  scheduler (the initial poll, then one poll after each task completion) terminates with every
  task of the graph \<open>DONE\<close>, and the completion callback is invoked exactly once.

  Formally: the execution relation \<open>step\<close> is well-founded, so every schedule is finite; a
  world with nothing pending is reachable from \<open>runTask\<close>; in every reachable world each pending
  unit runs without an assertion failure and the callback has been invoked at most once; and
  in every reachable world with nothing pending all tasks of the root's graph are \<open>DONE\<close> and
  the callback has been invoked exactly once.
\<close>

theorem acyclic_graph_runs_to_completion:
  fixes h :: "('a::finite) heap"
  assumes "acyclic (depends h)" and "\<forall>t. getState h t = BLOCKED"
  shows "wf {(w', w :: 'a world). step w w'} \<and>
         (\<exists>w. reaches (runTask (TaskRunner_new ex) h root e) w \<and> pending w = []) \<and>
         (\<forall>w. reaches (runTask (TaskRunner_new ex) h root e) w \<longrightarrow>
              (\<forall>i<length (pending w). \<exists>w'. executeUnit i w = Inr w') \<and>
              doneCalls w \<le> 1 \<and>
              (pending w = [] \<longrightarrow>
                 (\<forall>t\<in>graphOf h root. getState (heap w) t = DONE) \<and> doneCalls w = 1))"
proof -
  have 1: "wf {(w', w :: 'a world). step w w'}" by (rule wf_step)
  have 2: "\<exists>w. reaches (runTask (TaskRunner_new ex) h root e) w \<and> pending w = []"
    by (rule exists_quiescent)
  have 3: "(\<forall>i<length (pending w). \<exists>w'. executeUnit i w = Inr w') \<and>
              doneCalls w \<le> 1 \<and>
              (pending w = [] \<longrightarrow>
                 (\<forall>t\<in>graphOf h root. getState (heap w) t = DONE) \<and> doneCalls w = 1)"
    if r: "reaches (runTask (TaskRunner_new ex) h root e) w" for w
  proof -
    have inv: "schedulerInv w" by (rule reaches_runTask_inv[OF assms(2) r])
    have a: "\<forall>i<length (pending w). \<exists>w'. executeUnit i w = Inr w'"
      by (simp add: executeUnit_unitResult)
    have "doneOnce w" using inv by (simp add: schedulerInv_def)
    then have b: "doneCalls w \<le> 1" by (rule doneCalls_le_1)
    have c: "(\<forall>t\<in>graphOf h root. getState (heap w) t = DONE) \<and> doneCalls w = 1" if q: "pending w = []"
      using quiescent_done[OF inv reaches_runTask_live[OF assms(1) r] q]
        reaches_runTask_shape(1)[OF r] by simp
    show ?thesis using a b c by blast
  qed
  show ?thesis using 1 2 3 by blast
qed

theorem acyclic_graph_runs_to_completion_witness:
  "acyclic (depends diamond) \<and> (\<forall>t. getState diamond t = BLOCKED) \<and>
   reaches (runTask (TaskRunner_new 0) diamond NA 1) (the diamondMid) \<and>
   pending (the diamondMid) = [(0, TaskBody NB), (0, TaskBody NC)] \<and>
   (\<exists>w'. executeUnit 1 (the diamondMid) = Inr w') \<and> doneCalls (the diamondMid) \<le> 1 \<and>
   reaches (runTask (TaskRunner_new 0) diamond NA 1) (the diamondRun) \<and>
   pending (the diamondRun) = [] \<and>
   getState (heap (the diamondRun)) NA = DONE \<and> getState (heap (the diamondRun)) NB = DONE \<and>
   getState (heap (the diamondRun)) NC = DONE \<and> getState (heap (the diamondRun)) ND = DONE \<and>
   doneCalls (the diamondRun) = 1"
proof -
  have bl: "\<forall>t. getState diamond t = BLOCKED" by (simp add: diamond_blocked)
  note th = acyclic_graph_runs_to_completion[OF diamond_acyclic bl, of 0 NA 1]
  from th have "(\<forall>t\<in>graphOf diamond NA. getState (heap (the diamondRun)) t = DONE) \<and> doneCalls (the diamondRun) = 1"
    using diamondRun_reaches diamondRun_pending by blast
  moreover from th have "(\<exists>w'. executeUnit 1 (the diamondMid) = Inr w') \<and> doneCalls (the diamondMid) \<le> 1"
    using diamondMid_reaches diamondMid_pending by simp
  ultimately show ?thesis
    using diamond_acyclic bl diamondRun_reaches diamondRun_pending diamondMid_reaches diamondMid_pending
    by (simp add: diamond_graph)
qed

text \<open>
  Claim C2.  One call of the readiness traversal returns the ready list and the visited set
  unchanged when the task is not \<open>BLOCKED\<close> or was already visited in this poll; otherwise it
  marks the task visited, recurses (in order) into exactly its \<open>BLOCKED\<close> dependencies, never
  into \<open>RUNNING\<close> or \<open>DONE\<close> ones, and then appends the task if and only if every dependency
  is \<open>DONE\<close>.  For the traversal of a poll, started at the root with an empty visited set, the
  ready list has no duplicates and holds exactly the visited tasks that are ready.
\<close>

theorem getReadyTasks_characterisation:
  "getReadyTasks h task (readyTasks, checked) =
     (if getState h task \<noteq> BLOCKED \<or> task \<in> checked then (readyTasks, checked)
      else (case fold (getReadyTasks h)
                   (filter (\<lambda>dep. getState h dep = BLOCKED) (getDependencies h task))
                   (readyTasks, insert task checked) of
              (readyTasks', checked') \<Rightarrow>
                (if \<forall>dep\<in>set (getDependencies h task). getState h dep = DONE
                 then readyTasks' @ [task] else readyTasks', checked'))) \<and>
   distinct (fst (getReadyTasks h root ([], {}))) \<and>
   set (fst (getReadyTasks h root ([], {}))) =
     {t \<in> snd (getReadyTasks h root ([], {})). isReady h t}"
proof -
  have "getReadyTasks h task (readyTasks, checked) =
     (if getState h task \<noteq> BLOCKED \<or> task \<in> checked then (readyTasks, checked)
      else (case fold (getReadyTasks h)
                   (filter (\<lambda>dep. getState h dep = BLOCKED) (getDependencies h task))
                   (readyTasks, insert task checked) of
              (readyTasks', checked') \<Rightarrow>
                (if \<forall>dep\<in>set (getDependencies h task). getState h dep = DONE
                 then readyTasks' @ [task] else readyTasks', checked')))"
    by (auto simp: getReadyTasks.simps forDeps_fold split: prod.splits)
  then show ?thesis using readyTasks_distinct[of h root] readyTasks_set[of h root] by blast
qed

theorem getReadyTasks_characterisation_witness:
  "getReadyTasks pollHeap NA ([], {}) = ([NC], {NA, NC}) \<and>
   getReadyTasks pollHeap NB ([], {}) = ([], {}) \<and>
   getReadyTasks pollHeap NC ([NC], {NA, NC}) = ([NC], {NA, NC})"
proof -
  have c: "getReadyTasks pollHeap NC ([], {NA}) = ([NC], {NA, NC})"
    using getReadyTasks_characterisation[of pollHeap NC "[]" "{NA}" NA]
    by (simp add: pollHeap_def getState_def getDependencies_def insert_commute)
  have a: "getReadyTasks pollHeap NA ([], {}) = ([NC], {NA, NC})"
    using getReadyTasks_characterisation[of pollHeap NA "[]" "{}" NA] c
    by (simp add: pollHeap_def getState_def getDependencies_def)
  have b: "getReadyTasks pollHeap NB ([], {}) = ([], {})"
    using getReadyTasks_characterisation[of pollHeap NB "[]" "{}" NA]
    by (simp add: pollHeap_def getState_def getDependencies_def)
  have d: "getReadyTasks pollHeap NC ([NC], {NA, NC}) = ([NC], {NA, NC})"
    using getReadyTasks_characterisation[of pollHeap NC "[NC]" "{NA, NC}" NA]
    by (simp add: pollHeap_def getState_def getDependencies_def)
  show ?thesis using a b d by simp
qed

text \<open>
  Claim C3.  A task is never set \<open>RUNNING\<close> while one of its dependencies is not \<open>DONE\<close>.
  First conjunct: a task that a poll moves to \<open>RUNNING\<close> was \<open>BLOCKED\<close> and had all its
  dependencies \<open>DONE\<close> in the heap that poll examined.  Second conjunct: in every world reachable
  from \<open>runTask\<close> on tasks that all start \<open>BLOCKED\<close>, every task that has left \<open>BLOCKED\<close>
  has all its dependencies \<open>DONE\<close>.
\<close>

theorem dispatch_only_when_dependencies_done:
  "(pollTask w = Inr w' \<and> getState (heap w') t = RUNNING \<and> getState (heap w) t \<noteq> RUNNING \<longrightarrow>
      getState (heap w) t = BLOCKED \<and>
      (\<forall>d\<in>set (getDependencies (heap w) t). getState (heap w) d = DONE)) \<and>
   ((\<forall>t. getState h t = BLOCKED) \<and> reaches (runTask (TaskRunner_new ex) h root e) v \<and>
    getState (heap v) u \<noteq> BLOCKED \<longrightarrow>
      (\<forall>d\<in>set (getDependencies (heap v) u). getState (heap v) d = DONE))"
proof -
  have 1: "getState (heap w) t = BLOCKED \<and>
      (\<forall>d\<in>set (getDependencies (heap w) t). getState (heap w) d = DONE)"
    if a: "pollTask w = Inr w' \<and> getState (heap w') t = RUNNING \<and> getState (heap w) t \<noteq> RUNNING"
  proof -
    from a have "w' = pollResult w" by (simp add: pollTask_pollResult)
    then have "isReady (heap w) t" using a pollResult_newly_running by blast
    then show ?thesis by (simp add: isReady_def)
  qed
  have 2: "\<forall>d\<in>set (getDependencies (heap v) u). getState (heap v) d = DONE"
    if a: "(\<forall>t. getState h t = BLOCKED) \<and> reaches (runTask (TaskRunner_new ex) h root e) v \<and>
      getState (heap v) u \<noteq> BLOCKED"
  proof -
    from a have "schedulerInv v" using reaches_runTask_inv by blast
    then have "depsDone (heap v)" by (simp add: schedulerInv_def)
    then show ?thesis using a by (auto simp: depsDone_def)
  qed
  show ?thesis using 1 2 by blast
qed

theorem dispatch_only_when_dependencies_done_witness:
  "pollTask (runTask (TaskRunner_new 0) diamond NA 1\<lparr>pending := []\<rparr>)
     = Inr (pollResult (runTask (TaskRunner_new 0) diamond NA 1\<lparr>pending := []\<rparr>)) \<and>
   getState (heap (pollResult (runTask (TaskRunner_new 0) diamond NA 1\<lparr>pending := []\<rparr>))) ND = RUNNING \<and>
   getState diamond ND = BLOCKED \<and>
   reaches (runTask (TaskRunner_new 0) diamond NA 1) (the diamondMid) \<and>
   getState (heap (the diamondMid)) NB = RUNNING \<and>
   getState (heap (the diamondMid)) ND = DONE"
proof -
  let ?w = "runTask (TaskRunner_new 0) diamond NA 1\<lparr>pending := []\<rparr>"
  have p: "pollTask ?w = Inr (pollResult ?w)" by (rule pollTask_pollResult)
  have r: "getState (heap (pollResult ?w)) ND = RUNNING" by code_simp
  have b: "getState (heap ?w) ND \<noteq> RUNNING" by (simp add: runTask_simps diamond_blocked)
  from dispatch_only_when_dependencies_done[of ?w "pollResult ?w" ND diamond 0 NA 1 "the diamondMid" NB]
  have 1: "getState (heap ?w) ND = BLOCKED"
    and 2: "\<forall>d\<in>set (getDependencies (heap (the diamondMid)) NB). getState (heap (the diamondMid)) d = DONE"
    using p r b diamondMid_reaches diamondMid_states(2) diamond_blocked by auto
  from 2 have "getState (heap (the diamondMid)) ND = DONE" by (simp add: diamondMid_deps)
  then show ?thesis using p r 1 diamondMid_reaches diamondMid_states(2) by (simp add: runTask_simps)
qed

text \<open>
  Claim C4.  In every world reachable from \<open>runTask\<close> on tasks that all start \<open>BLOCKED\<close>, one
  more unit of work leaves the state of a task unchanged, or moves it from \<open>BLOCKED\<close> to
  \<open>RUNNING\<close>, or from \<open>RUNNING\<close> to \<open>DONE\<close>; the number of times the body of a task has been
  submitted to the worker executor (pending plus already run) is 0 while the task is \<open>BLOCKED\<close>
  and 1 afterwards; and the body of a \<open>DONE\<close> task has run exactly once.  The witness is the
  task \<open>ND\<close> of the diamond, on which both \<open>NB\<close> and \<open>NC\<close> depend.
\<close>

theorem task_states_monotone_and_run_once:
  "(\<forall>t. getState h t = BLOCKED) \<and> reaches (runTask (TaskRunner_new ex) h root e) w \<longrightarrow>
     (\<forall>w'. step w w' \<longrightarrow>
         getState (heap w') t = getState (heap w) t \<or>
         getState (heap w) t = BLOCKED \<and> getState (heap w') t = RUNNING \<or>
         getState (heap w) t = RUNNING \<and> getState (heap w') t = DONE) \<and>
     cntBody t w + count_list (runLog w) t = (if getState (heap w) t = BLOCKED then 0 else 1) \<and>
     (getState (heap w) t = DONE \<longrightarrow> count_list (runLog w) t = 1)"
proof (intro impI)
  assume a: "(\<forall>t. getState h t = BLOCKED) \<and> reaches (runTask (TaskRunner_new ex) h root e) w"
  then have "schedulerInv w" using reaches_runTask_inv by blast
  then have acc: "accounted w" by (simp add: schedulerInv_def)
  have 1: "\<forall>w'. step w w' \<longrightarrow>
         getState (heap w') t = getState (heap w) t \<or>
         getState (heap w) t = BLOCKED \<and> getState (heap w') t = RUNNING \<or>
         getState (heap w) t = RUNNING \<and> getState (heap w') t = DONE"
    using step_monotone[OF acc] by blast
  have 2: "cntBody t w + count_list (runLog w) t = (if getState (heap w) t = BLOCKED then 0 else 1)"
    using accountedD(2)[OF acc, of t] by (simp add: add.commute)
  have 3: "getState (heap w) t = DONE \<longrightarrow> count_list (runLog w) t = 1"
    using accountedD[OF acc, of t] by auto
  show "(\<forall>w'. step w w' \<longrightarrow>
         getState (heap w') t = getState (heap w) t \<or>
         getState (heap w) t = BLOCKED \<and> getState (heap w') t = RUNNING \<or>
         getState (heap w) t = RUNNING \<and> getState (heap w') t = DONE) \<and>
     cntBody t w + count_list (runLog w) t = (if getState (heap w) t = BLOCKED then 0 else 1) \<and>
     (getState (heap w) t = DONE \<longrightarrow> count_list (runLog w) t = 1)"
    using 1 2 3 by blast
qed

theorem task_states_monotone_and_run_once_witness:
  "reaches (runTask (TaskRunner_new 0) diamond NA 1) (the diamondRun) \<and>
   getState (heap (the diamondRun)) ND = DONE \<and>
   cntBody ND (the diamondRun) = 0 \<and> count_list (runLog (the diamondRun)) ND = 1 \<and>
   step (the diamondMid) (unitResult (snd (pending (the diamondMid) ! 0)) (taken 0 (the diamondMid))) \<and>
   getState (heap (the diamondMid)) NB = RUNNING \<and>
   getState (heap (unitResult (snd (pending (the diamondMid) ! 0)) (taken 0 (the diamondMid)))) NB
     \<noteq> BLOCKED"
proof -
  have bl: "\<forall>t. getState diamond t = BLOCKED" by (simp add: diamond_blocked)
  from task_states_monotone_and_run_once[of diamond 0 NA 1 "the diamondRun" ND]
  have 1: "cntBody ND (the diamondRun) + count_list (runLog (the diamondRun)) ND = 1"
    "count_list (runLog (the diamondRun)) ND = 1"
    using bl diamondRun_reaches diamondRun_states by simp_all
  from task_states_monotone_and_run_once[of diamond 0 NA 1 "the diamondMid" NB]
  have 2: "getState (heap (unitResult (snd (pending (the diamondMid) ! 0)) (taken 0 (the diamondMid)))) NB
     \<noteq> BLOCKED"
    using bl diamondMid_reaches diamondMid_step diamondMid_states(2) by fastforce
  show ?thesis
    using 1 2 diamondRun_reaches diamondRun_states diamondMid_step diamondMid_states(2) by simp
qed

text \<open>
  Claim C5.  Polling a Context that is already marked done returns the world unchanged: no
  task state changes, nothing is dispatched, the running counter and the number of callback
  invocations stay as they are.
\<close>

theorem poll_of_done_context_is_noop:
  "Context_done w \<Longrightarrow> pollTask w = Inr w"
  by (simp add: pollTask_def)

theorem poll_of_done_context_is_noop_witness:
  "Context_done (the diamondRun) \<and> pollTask (the diamondRun) = Inr (the diamondRun)"
proof -
  have "Context_done (the diamondRun)" by code_simp
  then show ?thesis using poll_of_done_context_is_noop[of "the diamondRun"] by simp
qed

text \<open>
  Claim C6, as amended.  \<open>runTask r h root e\<close> constructs a Context for \<open>root\<close> on the executor
  \<open>e\<close>, submits the first poll to \<open>e\<close> and does nothing else (no task state changes, the
  callback is not invoked).  The executor argument \<open>e\<close> is the context executor: in every
  reachable world the polls and completion units are pending on \<open>e\<close>, while task bodies are
  pending on the executor \<open>ex\<close> the scheduler was constructed with.  The callback is invoked at
  most once, only when all tasks of the root's graph are \<open>DONE\<close>, only by a unit that runs on
  \<open>e\<close>, and for an acyclic graph it has been invoked exactly once when nothing is pending.

  As stated, the claim takes the executor argument for the worker executor on which task bodies
  run; the counterexample below shows a body pending on executor 0 after a call with executor
  argument 1.
\<close>

theorem runTask_submits_first_poll_to_context_executor:
  fixes h :: "('a::finite) heap"
  shows
  "runTask r h root e =
     \<lparr>heap = h, runner = r,
      ctx = \<lparr>rootTask = root, contextExecutor = e, doneFlag = False\<rparr>,
      pending = [(e, PollTask)], doneCalls = 0, runLog = []\<rparr> \<and>
   ((\<forall>t. getState h t = BLOCKED) \<and> reaches (runTask (TaskRunner_new ex) h root e) w \<longrightarrow>
      (\<forall>p\<in>set (pending w).
          (\<forall>t. snd p = TaskBody t \<longrightarrow> fst p = ex) \<and>
          (snd p = PollTask \<longrightarrow> fst p = e) \<and>
          (\<forall>t. snd p = SetTaskDone t \<longrightarrow> fst p = e)) \<and>
      doneCalls w \<le> 1 \<and>
      (doneCalls w = 1 \<longrightarrow> (\<forall>t\<in>graphOf h root. getState (heap w) t = DONE)) \<and>
      (\<forall>i<length (pending w). \<forall>w'. executeUnit i w = Inr w' \<and> doneCalls w' \<noteq> doneCalls w \<longrightarrow>
          fst (pending w ! i) = e) \<and>
      (acyclic (depends h) \<and> pending w = [] \<longrightarrow> doneCalls w = 1))"
proof -
  have 0: "runTask r h root e =
     \<lparr>heap = h, runner = r,
      ctx = \<lparr>rootTask = root, contextExecutor = e, doneFlag = False\<rparr>,
      pending = [(e, PollTask)], doneCalls = 0, runLog = []\<rparr>"
    by (simp add: runTask_def Context_execute_def Executor_execute_def)
  have 1: "(\<forall>p\<in>set (pending w).
          (\<forall>t. snd p = TaskBody t \<longrightarrow> fst p = ex) \<and>
          (snd p = PollTask \<longrightarrow> fst p = e) \<and>
          (\<forall>t. snd p = SetTaskDone t \<longrightarrow> fst p = e)) \<and>
      doneCalls w \<le> 1 \<and>
      (doneCalls w = 1 \<longrightarrow> (\<forall>t\<in>graphOf h root. getState (heap w) t = DONE)) \<and>
      (\<forall>i<length (pending w). \<forall>w'. executeUnit i w = Inr w' \<and> doneCalls w' \<noteq> doneCalls w \<longrightarrow>
          fst (pending w ! i) = e) \<and>
      (acyclic (depends h) \<and> pending w = [] \<longrightarrow> doneCalls w = 1)"
    if a: "(\<forall>t. getState h t = BLOCKED) \<and> reaches (runTask (TaskRunner_new ex) h root e) w"
  proof -
    from a have r: "reaches (runTask (TaskRunner_new ex) h root e) w" by simp
    from a have inv: "schedulerInv w" using reaches_runTask_inv by blast
    then have tg: "tagged w" and dn: "doneOnce w" and dd: "depsDone (heap w)"
      by (simp_all add: schedulerInv_def)
    have ex: "executor (runner w) = ex" "contextExecutor (ctx w) = e"
      using reaches_runTask_shape(3,4)[OF r] by (simp_all add: TaskRunner_new_def)
    have A: "\<forall>p\<in>set (pending w).
          (\<forall>t. snd p = TaskBody t \<longrightarrow> fst p = ex) \<and>
          (snd p = PollTask \<longrightarrow> fst p = e) \<and>
          (\<forall>t. snd p = SetTaskDone t \<longrightarrow> fst p = e)"
    proof
      fix p assume "p \<in> set (pending w)"
      from tagged_lookup[OF tg this] show "(\<forall>t. snd p = TaskBody t \<longrightarrow> fst p = ex) \<and>
          (snd p = PollTask \<longrightarrow> fst p = e) \<and>
          (\<forall>t. snd p = SetTaskDone t \<longrightarrow> fst p = e)"
        using ex by (cases "snd p") simp_all
    qed
    have B: "doneCalls w \<le> 1" using dn by (rule doneCalls_le_1)
    have C: "\<forall>t\<in>graphOf h root. getState (heap w) t = DONE" if "doneCalls w = 1"
    proof -
      from that dn have "getState (heap w) (rootTask (ctx w)) = DONE"
        by (auto simp: doneOnce_def split: if_splits)
      from graph_done[OF dd this] show ?thesis using reaches_runTask_shape(1)[OF r] by simp
    qed
    have D: "\<forall>i<length (pending w). \<forall>w'. executeUnit i w = Inr w' \<and> doneCalls w' \<noteq> doneCalls w \<longrightarrow>
          fst (pending w ! i) = e"
      using doneCalls_changes_on_control[OF tg] ex(2) by (auto simp: executeUnit_unitResult)
    have E: "doneCalls w = 1" if "acyclic (depends h) \<and> pending w = []"
      using quiescent_done[OF inv reaches_runTask_live[OF _ r]] that by blast
    show ?thesis using A B C D E by blast
  qed
  show ?thesis using 0 1 by blast
qed

theorem executor_argument_counterexample:
  "executor (TaskRunner_new 0) = 0 \<and>
   contextExecutor (ctx (runTask (TaskRunner_new 0) diamond ND 1)) = 1 \<and>
   pending (runTask (TaskRunner_new 0) diamond ND 1) = [(1, PollTask)] \<and>
   runSchedule [0] (runTask (TaskRunner_new 0) diamond ND 1) = Some (the singleFirst) \<and>
   pending (the singleFirst) = [(0, TaskBody ND)] \<and>
   \<not> (\<forall>p\<in>set (pending (the singleFirst)). \<forall>t. snd p = TaskBody t \<longrightarrow> fst p = 1)"
proof -
  have "executor (TaskRunner_new 0) = 0" by (simp add: TaskRunner_new_def)
  moreover have "contextExecutor (ctx (runTask (TaskRunner_new 0) diamond ND 1)) = 1"
    "pending (runTask (TaskRunner_new 0) diamond ND 1) = [(1, PollTask)]"
    by (simp_all add: runTask_simps)
  moreover have "runSchedule [0] (runTask (TaskRunner_new 0) diamond ND 1) = Some (the singleFirst)"
    using singleFirst_eval(1) by (auto simp: singleFirst_def)
  ultimately show ?thesis using singleFirst_eval(5) by simp
qed

theorem runTask_submits_first_poll_to_context_executor_witness:
  "(\<forall>t. getState diamond t = BLOCKED) \<and> acyclic (depends diamond) \<and>
   pending (runTask (TaskRunner_new 0) diamond NA 1) = [(1, PollTask)] \<and>
   heap (runTask (TaskRunner_new 0) diamond NA 1) = diamond \<and>
   doneCalls (runTask (TaskRunner_new 0) diamond NA 1) = 0 \<and>
   reaches (runTask (TaskRunner_new 0) diamond NA 1) (the diamondMid) \<and>
   pending (the diamondMid) ! 0 \<in> set (pending (the diamondMid)) \<and>
   snd (pending (the diamondMid) ! 0) = TaskBody NB \<and>
   fst (pending (the diamondMid) ! 0) = 0 \<and>
   reaches (runTask (TaskRunner_new 0) diamond NA 1) (the diamondLast) \<and>
   executeUnit 0 (the diamondLast) = Inr (unitResult (SetTaskDone NA) (taken 0 (the diamondLast))) \<and>
   doneCalls (the diamondLast) = 0 \<and>
   doneCalls (unitResult (SetTaskDone NA) (taken 0 (the diamondLast))) = 1 \<and>
   fst (pending (the diamondLast) ! 0) = 1 \<and>
   reaches (runTask (TaskRunner_new 0) diamond NA 1) (the diamondRun) \<and>
   pending (the diamondRun) = [] \<and> doneCalls (the diamondRun) = 1 \<and>
   getState (heap (the diamondRun)) ND = DONE"
proof -
  have bl: "\<forall>t. getState diamond t = BLOCKED" by (simp add: diamond_blocked)
  note th = runTask_submits_first_poll_to_context_executor[where h = diamond and ex = 0
      and root = NA and e = 1 and r = "TaskRunner_new 0"]
  from th[where w = "the diamondRun"] have 0:
    "runTask (TaskRunner_new 0) diamond NA 1 =
     \<lparr>heap = diamond, runner = TaskRunner_new 0,
      ctx = \<lparr>rootTask = NA, contextExecutor = 1, doneFlag = False\<rparr>,
      pending = [(1, PollTask)], doneCalls = 0, runLog = []\<rparr>" by blast
  from th[where w = "the diamondRun"] have 1: "doneCalls (the diamondRun) = 1"
    using bl diamondRun_reaches diamondRun_pending diamond_acyclic by blast
  from th[where w = "the diamondRun"] have 2: "getState (heap (the diamondRun)) ND = DONE"
    using bl diamondRun_reaches 1 by (simp add: diamond_graph)
  have 3: "pending (the diamondMid) ! 0 \<in> set (pending (the diamondMid))"
    "snd (pending (the diamondMid) ! 0) = TaskBody NB"
    by (simp_all add: diamondMid_pending)
  from th[where w = "the diamondMid"] have 5: "fst (pending (the diamondMid) ! 0) = 0"
    using bl diamondMid_reaches 3 by blast
  have 6: "executeUnit 0 (the diamondLast) = Inr (unitResult (SetTaskDone NA) (taken 0 (the diamondLast)))"
    by (simp add: executeUnit_unitResult diamondLast_eval(1))
  have 7: "0 < length (pending (the diamondLast))" by (simp add: diamondLast_eval(1))
  from th[where w = "the diamondLast"] have 8: "fst (pending (the diamondLast) ! 0) = 1"
    using bl diamondLast_reaches 6 7 diamondLast_eval(2,3) by (metis zero_neq_one)
  have 4: "pending (runTask (TaskRunner_new 0) diamond NA 1) = [(1, PollTask)]"
    "heap (runTask (TaskRunner_new 0) diamond NA 1) = diamond"
    "doneCalls (runTask (TaskRunner_new 0) diamond NA 1) = 0"
    unfolding 0 by simp_all
  show ?thesis
    using bl diamond_acyclic diamondMid_reaches diamondRun_reaches diamondRun_pending 1 2 3 4 5 6 8
      diamondLast_reaches diamondLast_eval(2,3)
    by blast
qed

text \<open>
  Claim C7, as amended.  For a \<open>BLOCKED\<close> root task with no dependencies the first poll sets it
  \<open>RUNNING\<close> and submits its body to the worker executor; the task is not \<open>DONE\<close> and the
  callback has not been invoked then.  Running the body submits the completion unit to the
  context executor; that unit sets the task \<open>DONE\<close> and its poll (the second one) invokes the
  callback, after which nothing is pending.

  As stated, the claim has a single poll mark the task done and fire the callback; the
  counterexample below shows the world after that poll.
\<close>

theorem single_task_completes_on_second_poll:
  fixes h :: "('a::finite) heap"
  assumes "getState h root = BLOCKED" "getDependencies h root = []"
  shows "\<exists>w1 w2 w3.
     executeUnit 0 (runTask r h root e) = Inr w1 \<and>
       getState (heap w1) root = RUNNING \<and> doneCalls w1 = 0 \<and> \<not> doneFlag (ctx w1) \<and>
       pending w1 = [(executor r, TaskBody root)] \<and>
     executeUnit 0 w1 = Inr w2 \<and>
       getState (heap w2) root = RUNNING \<and> doneCalls w2 = 0 \<and>
       pending w2 = [(e, SetTaskDone root)] \<and>
     executeUnit 0 w2 = Inr w3 \<and>
       getState (heap w3) root = DONE \<and> doneCalls w3 = 1 \<and> doneFlag (ctx w3) \<and>
       pending w3 = []"
proof -
  let ?w0 = "runTask r h root e"
  let ?w1 = "pollResult (taken 0 ?w0)"
  let ?w2 = "bodyResult root (taken 0 ?w1)"
  let ?w3 = "pollResult (doneUpdate root (taken 0 ?w2))"
  have rl: "readyList (taken 0 ?w0) = [root]"
    using getReadyTasks_no_deps[OF assms] by (simp add: readyList_def taken_simps runTask_simps)
  have w1: "?w1 = dispatch [root] (taken 0 ?w0)"
    using assms(1) rl by (simp add: pollResult_def Context_done_def taken_simps runTask_simps)
  have p1: "pending ?w1 = [(executor r, TaskBody root)]"
    unfolding w1 by (simp add: dispatch_simps taken_simps runTask_simps removeAt_def)
  have s1: "getState (heap ?w1) root = RUNNING" unfolding w1 by (simp add: getState_dispatch)
  have d1: "doneCalls ?w1 = 0" "\<not> doneFlag (ctx ?w1)" "contextExecutor (ctx ?w1) = e"
    "rootTask (ctx ?w1) = root"
    unfolding w1 by (simp_all add: dispatch_simps taken_simps runTask_simps)
  have e1: "executeUnit 0 ?w0 = Inr ?w1" by (simp add: executeUnit_unitResult runTask_simps)
  have e2: "executeUnit 0 ?w1 = Inr ?w2" by (simp add: executeUnit_unitResult p1)
  have p2: "pending ?w2 = [(e, SetTaskDone root)]"
    by (simp add: bodyResult_simps taken_simps p1 d1 removeAt_def)
  have s2: "getState (heap ?w2) root = RUNNING" "doneCalls ?w2 = 0" "\<not> doneFlag (ctx ?w2)"
    "rootTask (ctx ?w2) = root"
    using s1 d1 by (simp_all add: bodyResult_simps taken_simps)
  have e3: "executeUnit 0 ?w2 = Inr ?w3" by (simp add: executeUnit_unitResult p2)
  let ?v = "doneUpdate root (taken 0 ?w2)"
  have v: "\<not> Context_done ?v" "getState (heap ?v) (rootTask (ctx ?v)) = DONE"
    "pending ?v = []" "doneCalls ?v = 0"
    using s2 by (simp_all add: Context_done_def doneUpdate_simps taken_simps getState_setDone p2 removeAt_def)
  have w3: "?w3 = Context_setDone ?v" using v(1,2) by (simp add: pollResult_def)
  have s3: "getState (heap ?w3) root = DONE" "doneCalls ?w3 = 1" "doneFlag (ctx ?w3)" "pending ?w3 = []"
    unfolding w3 using v(3,4)
    by (simp_all add: Context_setDone_simps doneUpdate_simps getState_setDone)
  show ?thesis using e1 s1 d1(1,2) p1 e2 s2(1,2) p2 e3 s3 by blast
qed

theorem single_poll_counterexample:
  "getDependencies diamond ND = [] \<and>
   runSchedule [0] (runTask (TaskRunner_new 0) diamond ND 1) = Some (the singleFirst) \<and>
   getState (heap (the singleFirst)) ND = RUNNING \<and>
   doneCalls (the singleFirst) = 0 \<and> \<not> doneFlag (ctx (the singleFirst)) \<and>
   pending (the singleFirst) = [(0, TaskBody ND)] \<and>
   \<not> (getState (heap (the singleFirst)) ND = DONE \<and> doneCalls (the singleFirst) = 1)"
proof -
  have "getDependencies diamond ND = []" by (simp add: getDependencies_def diamond_def)
  moreover have "runSchedule [0] (runTask (TaskRunner_new 0) diamond ND 1) = Some (the singleFirst)"
    using singleFirst_eval(1) by (auto simp: singleFirst_def)
  ultimately show ?thesis using singleFirst_eval by simp
qed

theorem single_task_completes_on_second_poll_witness:
  "getState diamond ND = BLOCKED \<and> getDependencies diamond ND = [] \<and>
   (\<exists>w1 w2 w3.
     executeUnit 0 (runTask (TaskRunner_new 0) diamond ND 1) = Inr w1 \<and>
       getState (heap w1) ND = RUNNING \<and> doneCalls w1 = 0 \<and> \<not> doneFlag (ctx w1) \<and>
       pending w1 = [(0, TaskBody ND)] \<and>
     executeUnit 0 w1 = Inr w2 \<and>
       getState (heap w2) ND = RUNNING \<and> doneCalls w2 = 0 \<and>
       pending w2 = [(1, SetTaskDone ND)] \<and>
     executeUnit 0 w2 = Inr w3 \<and>
       getState (heap w3) ND = DONE \<and> doneCalls w3 = 1 \<and> doneFlag (ctx w3) \<and>
       pending w3 = [])"
proof -
  have 1: "getState diamond ND = BLOCKED" "getDependencies diamond ND = []"
    by (simp_all add: getState_def getDependencies_def diamond_def)
  from single_task_completes_on_second_poll[OF 1, of "TaskRunner_new 0" 1]
  show ?thesis using 1 by (simp add: TaskRunner_new_def)
qed

text \<open>
  Claim C8.  The counter is 0 after construction; \<open>setTaskRunning\<close> sets the task \<open>RUNNING\<close>
  and adds 1, \<open>setTaskDone\<close> sets it \<open>DONE\<close> and subtracts 1 before it polls.  In every world
  reachable from \<open>runTask\<close> on a fresh scheduler and tasks that all start \<open>BLOCKED\<close>, the
  counter (a 32-bit unsigned integer) is the number of \<open>RUNNING\<close> tasks, read as a natural
  number whenever there are fewer than \<open>2 ^ 32\<close> tasks; and once the Context is marked done, or
  nothing is pending, it is 0 and the destructor's assertion holds.
\<close>

theorem running_counter_counts_running_tasks:
  fixes h :: "('a::finite) heap"
  shows
  "runningTasks (TaskRunner_new ex) = 0 \<and>
   runningTasks (runner (setTaskRunning task v)) = runningTasks (runner v) + 1 \<and>
   getState (heap (setTaskRunning task v)) task = RUNNING \<and>
   setTaskDone task v = pollTask (doneUpdate task v) \<and>
   runningTasks (runner (doneUpdate task v)) = runningTasks (runner v) - 1 \<and>
   getState (heap (doneUpdate task v)) task = DONE \<and>
   ((\<forall>t. getState h t = BLOCKED) \<and> reaches (runTask (TaskRunner_new ex) h root e) w \<longrightarrow>
      runningTasks (runner w) = of_nat (card {t. getState (heap w) t = RUNNING}) \<and>
      (card (UNIV :: 'a set) < 2 ^ 32 \<longrightarrow>
         unat (runningTasks (runner w)) = card {t. getState (heap w) t = RUNNING}) \<and>
      (doneFlag (ctx w) \<or> pending w = [] \<longrightarrow>
         runningTasks (runner w) = 0 \<and> TaskRunner_destroy (runner w) = Inr ()))"
proof -
  have 0: "runningTasks (TaskRunner_new ex) = 0" by (simp add: TaskRunner_new_def)
  have 1: "runningTasks (runner (setTaskRunning task v)) = runningTasks (runner v) + 1"
    "getState (heap (setTaskRunning task v)) task = RUNNING"
    by (simp_all add: setTaskRunning_def setRunning_def getState_def)
  have 2: "setTaskDone task v = pollTask (doneUpdate task v)"
    "runningTasks (runner (doneUpdate task v)) = runningTasks (runner v) - 1"
    "getState (heap (doneUpdate task v)) task = DONE"
    by (simp_all add: setTaskDone_def doneUpdate_def setDone_def getState_def)
  have 3: "runningTasks (runner w) = of_nat (card {t. getState (heap w) t = RUNNING}) \<and>
      (card (UNIV :: 'a set) < 2 ^ 32 \<longrightarrow>
         unat (runningTasks (runner w)) = card {t. getState (heap w) t = RUNNING}) \<and>
      (doneFlag (ctx w) \<or> pending w = [] \<longrightarrow>
         runningTasks (runner w) = 0 \<and> TaskRunner_destroy (runner w) = Inr ())"
    if a: "(\<forall>t. getState h t = BLOCKED) \<and> reaches (runTask (TaskRunner_new ex) h root e) w"
  proof -
    from a have inv: "schedulerInv w" using reaches_runTask_inv by blast
    then have c: "counted w" by (simp add: schedulerInv_def)
    have x: "runningTasks (runner w) = of_nat (card {t. getState (heap w) t = RUNNING})"
      using c by (simp add: counted_def)
    have y: "card (UNIV :: 'a set) < 2 ^ 32 \<longrightarrow>
         unat (runningTasks (runner w)) = card {t. getState (heap w) t = RUNNING}"
      using counted_unat[OF c] by simp
    have z: "runningTasks (runner w) = 0" if "doneFlag (ctx w) \<or> pending w = []"
      using that done_flag_no_running[OF inv] quiescent_no_running[OF inv] by blast
    show ?thesis using x y z by (simp add: TaskRunner_destroy_def)
  qed
  show ?thesis using 0 1 2 3 by blast
qed

theorem running_counter_counts_running_tasks_witness:
  "(\<forall>t. getState diamond t = BLOCKED) \<and>
   reaches (runTask (TaskRunner_new 0) diamond NA 1) (the diamondMid) \<and>
   runningTasks (runner (the diamondMid)) = 2 \<and>
   card {t. getState (heap (the diamondMid)) t = RUNNING} = 2 \<and>
   reaches (runTask (TaskRunner_new 0) diamond NA 1) (the diamondRun) \<and>
   pending (the diamondRun) = [] \<and>
   runningTasks (runner (the diamondRun)) = 0 \<and>
   TaskRunner_destroy (runner (the diamondRun)) = Inr ()"
proof -
  have bl: "\<forall>t. getState diamond t = BLOCKED" by (simp add: diamond_blocked)
  have c: "card (UNIV :: node set) < 2 ^ 32" by (simp add: node_card)
  have m: "runningTasks (runner (the diamondMid)) = 2" by code_simp
  from running_counter_counts_running_tasks[where h = diamond and ex = 0 and root = NA and e = 1
      and w = "the diamondMid"]
  have "unat (runningTasks (runner (the diamondMid))) = card {t. getState (heap (the diamondMid)) t = RUNNING}"
    using bl diamondMid_reaches c by blast
  then have 1: "card {t. getState (heap (the diamondMid)) t = RUNNING} = 2" using m by simp
  from running_counter_counts_running_tasks[where h = diamond and ex = 0 and root = NA and e = 1
      and w = "the diamondRun"]
  have 2: "runningTasks (runner (the diamondRun)) = 0 \<and> TaskRunner_destroy (runner (the diamondRun)) = Inr ()"
    using bl diamondRun_reaches diamondRun_pending by blast
  show ?thesis using bl diamondMid_reaches m 1 diamondRun_reaches diamondRun_pending 2 by simp
qed

text \<open>
  Claim C9.  When a task \<open>t\<close> lies on a dependency cycle and all tasks start \<open>BLOCKED\<close>, then in
  every world reachable from \<open>runTask\<close> the task \<open>t\<close> is still \<open>BLOCKED\<close>, it is not in the ready
  list of a poll of that world, the poll returns normally, and every pending unit runs without
  an error and leaves \<open>t\<close> \<open>BLOCKED\<close>.  (That the traversal itself returns on a cyclic graph
  is the termination proof of \<open>getReadyTasks\<close>.)  In the witness the run ends with nothing
  pending, the callback never invoked and no error: a silent deadlock.
\<close>

theorem blocked_cycle_never_dispatched:
  fixes h :: "('a::finite) heap"
  assumes "\<forall>t. getState h t = BLOCKED"
    and "(t, t) \<in> (depends h)\<^sup>+"
    and "reaches (runTask (TaskRunner_new ex) h root e) w"
  shows "getState (heap w) t = BLOCKED \<and> t \<notin> set (readyList w) \<and>
         pollTask w = Inr (pollResult w) \<and>
         (\<forall>i<length (pending w). \<exists>w'. executeUnit i w = Inr w' \<and> getState (heap w') t = BLOCKED)"
proof -
  let ?C = "{c. (t, c) \<in> (depends h)\<^sup>+ \<and> (c, t) \<in> (depends h)\<^sup>+}"
  let ?w0 = "runTask (TaskRunner_new ex) h root e"
  have t: "t \<in> ?C" using assms(2) by simp
  have s0: "stuck (heap ?w0) ?C" using cycle_stuck[OF assms(2)] assms(1) by (simp add: runTask_simps)
  have a0: "accounted ?w0" using schedulerInv_runTask[OF assms(1)] by (simp add: schedulerInv_def)
  from stuck_reaches[OF assms(3) a0 s0] have s: "accounted w" "stuck (heap w) ?C" by simp_all
  have 1: "getState (heap w) t = BLOCKED" using s(2) t by (simp add: stuck_def)
  have 2: "t \<notin> set (readyList w)" using stuck_not_ready[OF s(2) t] readyList_isReady by blast
  have 3: "\<exists>w'. executeUnit i w = Inr w' \<and> getState (heap w') t = BLOCKED" if i: "i < length (pending w)" for i
  proof -
    have st: "step w (unitResult (snd (pending w ! i)) (taken i w))" using i by (auto simp: step_iff)
    from stuck_step[OF s st] have "getState (heap (unitResult (snd (pending w ! i)) (taken i w))) t = BLOCKED"
      using t by (simp add: stuck_def)
    then show ?thesis by (simp add: executeUnit_unitResult)
  qed
  show ?thesis using 1 2 3 pollTask_pollResult by blast
qed

theorem blocked_cycle_never_dispatched_witness:
  "(\<forall>t. getState cyclic t = BLOCKED) \<and> (NA, NA) \<in> (depends cyclic)\<^sup>+ \<and>
   reaches (runTask (TaskRunner_new 0) cyclic NA 1) (the cyclicMid) \<and>
   pending (the cyclicMid) = [(0, TaskBody NC)] \<and>
   (\<exists>w'. executeUnit 0 (the cyclicMid) = Inr w' \<and> getState (heap w') NA = BLOCKED) \<and>
   reaches (runTask (TaskRunner_new 0) cyclic NA 1) (the cyclicRun) \<and>
   runLog (the cyclicRun) = [NC] \<and> pending (the cyclicRun) = [] \<and> doneCalls (the cyclicRun) = 0 \<and>
   getState (heap (the cyclicRun)) NA = BLOCKED \<and> NA \<notin> set (readyList (the cyclicRun)) \<and>
   pollTask (the cyclicRun) = Inr (pollResult (the cyclicRun))"
proof -
  have bl: "\<forall>t. getState cyclic t = BLOCKED" by (simp add: getState_def cyclic_def)
  have x: "runLog (the cyclicRun) = [NC]" "pending (the cyclicRun) = []" "doneCalls (the cyclicRun) = 0"
    by code_simp+
  from blocked_cycle_never_dispatched[OF bl cyclic_cycle cyclicMid_reaches]
  have m: "\<exists>w'. executeUnit 0 (the cyclicMid) = Inr w' \<and> getState (heap w') NA = BLOCKED"
    using cyclicMid_pending by simp
  from blocked_cycle_never_dispatched[OF bl cyclic_cycle cyclicRun_reaches]
  show ?thesis using bl cyclic_cycle cyclicRun_reaches cyclicMid_reaches cyclicMid_pending m x by simp
qed

text \<open>
  Claim C10.  A \<open>RUNNING\<close> dependency does not end the traversal of a \<open>BLOCKED\<close> task.
  First conjunct: it only clears the ready flag of the loop over the dependencies; the ready
  list and the visited set the loop returns are those it returns without that dependency.
  Second conjunct: a ready dependency of a \<open>BLOCKED\<close>, not yet visited task is in the ready
  list after the call, whatever the states of its siblings.  Third conjunct: the loop over a
  dependency list with a \<open>RUNNING\<close> entry still descends from every \<open>BLOCKED\<close>, unvisited
  dependency after that entry: every task below it along \<open>BLOCKED\<close>, unvisited tasks, at any
  depth, is visited by the loop, and is in the ready list the loop returns when it is ready.
  Fourth conjunct: the same for a call on a \<open>BLOCKED\<close>, unvisited task, so a poll discovers
  every ready task that the root reaches through \<open>BLOCKED\<close> tasks, also behind a dependency
  that is in flight.  In the witness the ready task is two levels below the root, behind a
  \<open>BLOCKED\<close> dependency that follows a \<open>RUNNING\<close> one.
\<close>

theorem running_dependency_does_not_stop_traversal:
  "(getState h r = RUNNING \<longrightarrow>
      forDeps h (front @ r # rest) (ready, readyTasks, checked) =
        (False, snd (forDeps h (front @ rest) (ready, readyTasks, checked)))) \<and>
   (getState h task = BLOCKED \<and> task \<notin> checked \<and> d \<in> set (getDependencies h task) \<and>
    isReady h d \<and> d \<notin> checked \<longrightarrow>
      d \<in> set (fst (getReadyTasks h task (readyTasks, checked)))) \<and>
   (getState h r = RUNNING \<and> dep \<in> set rest \<and> getState h dep = BLOCKED \<and> dep \<notin> checked \<and>
    (x, dep) \<in> (unvisitedBlocked h checked)\<^sup>* \<longrightarrow>
      x \<in> snd (snd (forDeps h (front @ r # rest) (ready, readyTasks, checked))) \<and>
      (isReady h x \<longrightarrow>
         x \<in> set (fst (snd (forDeps h (front @ r # rest) (ready, readyTasks, checked)))))) \<and>
   (getState h task = BLOCKED \<and> task \<notin> checked \<and>
    (y, task) \<in> (unvisitedBlocked h checked)\<^sup>* \<longrightarrow>
      y \<in> snd (getReadyTasks h task (readyTasks, checked)) \<and>
      (isReady h y \<longrightarrow> y \<in> set (fst (getReadyTasks h task (readyTasks, checked)))))"
proof -
  have 1: "forDeps h (front @ r # rest) (ready, readyTasks, checked) =
        (False, snd (forDeps h (front @ rest) (ready, readyTasks, checked)))"
    if r: "getState h r = RUNNING"
  proof -
    obtain r1 rc1 where 1: "forDeps h front (ready, readyTasks, checked) = (r1, rc1)"
      by (cases "forDeps h front (ready, readyTasks, checked)") auto
    obtain rt1 ch1 where rc1: "rc1 = (rt1, ch1)" by (cases rc1) auto
    have "forDeps h (front @ r # rest) (ready, readyTasks, checked) = forDeps h rest (False, rc1)"
      using r 1 rc1 by (simp add: forDeps_append)
    moreover have "forDeps h (front @ rest) (ready, readyTasks, checked) = forDeps h rest (r1, rc1)"
      using 1 by (simp add: forDeps_append)
    moreover have "forDeps h rest (False, rc1) = (False, snd (forDeps h rest (r1, rc1)))"
      using forDeps_flag_irrelevant[of h rest False rc1 r1] forDeps_flag_False[of h rest rc1]
      by (metis prod.collapse)
    ultimately show ?thesis by simp
  qed
  have 2: "d \<in> set (fst (getReadyTasks h task (readyTasks, checked)))"
    if "getState h task = BLOCKED \<and> task \<notin> checked \<and> d \<in> set (getDependencies h task) \<and>
        isReady h d \<and> d \<notin> checked"
    using that ready_dep_discovered[of h task checked d readyTasks] by blast
  have 3: "x \<in> snd (snd (forDeps h (front @ r # rest) (ready, readyTasks, checked))) \<and>
      (isReady h x \<longrightarrow>
         x \<in> set (fst (snd (forDeps h (front @ r # rest) (ready, readyTasks, checked)))))"
    if a: "getState h r = RUNNING \<and> dep \<in> set rest \<and> getState h dep = BLOCKED \<and> dep \<notin> checked \<and>
           (x, dep) \<in> (unvisitedBlocked h checked)\<^sup>*"
  proof -
    let ?res = "snd (forDeps h (front @ r # rest) (ready, readyTasks, checked))"
    have v: "visits h (set (front @ r # rest)) (readyTasks, checked) ?res"
      using visits_getReadyTasks_forDeps(2)[of h "front @ r # rest" "(ready, readyTasks, checked)"] by simp
    have d: "dep \<in> set (front @ r # rest)" "getState h dep = BLOCKED" "dep \<notin> snd (readyTasks, checked)"
      "(x, dep) \<in> (unvisitedBlocked h (snd (readyTasks, checked)))\<^sup>*"
      using a by simp_all
    show ?thesis using visits_chain[OF v d] visits_ready_chain[OF v d] by blast
  qed
  have 4: "y \<in> snd (getReadyTasks h task (readyTasks, checked)) \<and>
      (isReady h y \<longrightarrow> y \<in> set (fst (getReadyTasks h task (readyTasks, checked))))"
    if a: "getState h task = BLOCKED \<and> task \<notin> checked \<and>
           (y, task) \<in> (unvisitedBlocked h checked)\<^sup>*"
  proof -
    let ?res = "getReadyTasks h task (readyTasks, checked)"
    have v: "visits h {task} (readyTasks, checked) ?res" by (rule visits_getReadyTasks_forDeps(1))
    have d: "task \<in> {task}" "getState h task = BLOCKED" "task \<notin> snd (readyTasks, checked)"
      "(y, task) \<in> (unvisitedBlocked h (snd (readyTasks, checked)))\<^sup>*"
      using a by simp_all
    show ?thesis using visits_chain[OF v d] visits_ready_chain[OF v d] by blast
  qed
  show ?thesis using 1 2 3 4 by blast
qed

theorem running_dependency_does_not_stop_traversal_witness:
  "getDependencies deepHeap NA = [NB, NC] \<and> getDependencies deepHeap NC = [ND] \<and>
   getState deepHeap NA = BLOCKED \<and> getState deepHeap NB = RUNNING \<and>
   getState deepHeap NC = BLOCKED \<and> isReady deepHeap ND \<and>
   (ND, NC) \<in> (unvisitedBlocked deepHeap {NA})\<^sup>* \<and>
   (ND, NA) \<in> (unvisitedBlocked deepHeap {})\<^sup>* \<and>
   forDeps deepHeap [NB, NC] (True, [], {NA}) = (False, snd (forDeps deepHeap [NC] (True, [], {NA}))) \<and>
   ND \<in> set (fst (snd (forDeps deepHeap [NB, NC] (True, [], {NA})))) \<and>
   ND \<in> set (fst (getReadyTasks deepHeap NA ([], {}))) \<and>
   getReadyTasks deepHeap NA ([], {}) = ([ND], {NA, NC, ND})"
proof -
  have rd: "isReady deepHeap ND" by (simp add: isReady_def deepHeap_states)
  have e1: "(ND, NC) \<in> unvisitedBlocked deepHeap {NA}"
    by (simp add: unvisitedBlocked_def deepHeap_states)
  have e2: "(ND, NC) \<in> unvisitedBlocked deepHeap {}" "(NC, NA) \<in> unvisitedBlocked deepHeap {}"
    by (simp_all add: unvisitedBlocked_def deepHeap_states)
  have c1: "(ND, NC) \<in> (unvisitedBlocked deepHeap {NA})\<^sup>*" using e1 by blast
  have c2: "(ND, NA) \<in> (unvisitedBlocked deepHeap {})\<^sup>*" using e2 by (meson rtrancl.simps)
  note th1 = running_dependency_does_not_stop_traversal[where h = deepHeap and r = NB and front = "[]"
      and rest = "[NC]" and ready = True and readyTasks = "[]" and checked = "{NA}" and dep = NC and x = ND]
  note th2 = running_dependency_does_not_stop_traversal[where h = deepHeap and task = NA
      and readyTasks = "[]" and checked = "{}" and y = ND]
  from th1 have 1: "forDeps deepHeap [NB, NC] (True, [], {NA}) = (False, snd (forDeps deepHeap [NC] (True, [], {NA})))"
    using deepHeap_states(2) by simp
  from th1 have 2: "ND \<in> set (fst (snd (forDeps deepHeap [NB, NC] (True, [], {NA}))))"
    using deepHeap_states(2,3) c1 rd by simp
  from th2 have 3: "ND \<in> set (fst (getReadyTasks deepHeap NA ([], {})))"
    using deepHeap_states(1) c2 rd by simp
  show ?thesis using deepHeap_states rd c1 c2 1 2 3 deepHeap_eval(1) by simp
qed

end
